theory Spec2Isabelle
  imports Main
begin

section \<open>The immutable collections the plugin relies on\<close>

text \<open>
  The plugin (\<^verbatim>\<open>src/index.js\<close>) is written against draft-js and Immutable.js.
  Their values are persistent, so every operation below is a pure function. Only the
  behaviour the plugin calls is modelled:
  \<^item> an \<^verbatim>\<open>OrderedSet<string>\<close> (a character's inline style) is the list of its
    members in insertion order; \<^verbatim>\<open>add\<close> appends a member that is not there yet;
  \<^item> an Immutable \<^verbatim>\<open>List\<close> is a list; \<^verbatim>\<open>get\<close> and \<^verbatim>\<open>slice\<close> take
    JavaScript numbers, modelled as \<open>int\<close>, and count a negative index from the end;
  \<^item> dereferencing \<^verbatim>\<open>undefined\<close> raises a \<^verbatim>\<open>TypeError\<close>, a failed
    \<^verbatim>\<open>invariant(...)\<close> of draft-js raises its own error, and a matcher may throw any
    value of its own.
\<close>

datatype error = TypeError | InvariantViolation | Thrown string

type_synonym draft_inline_style = "string list"

definition ordered_set_add :: "draft_inline_style \<Rightarrow> string \<Rightarrow> draft_inline_style" where
  "ordered_set_add s x = (if x \<in> set s then s else s @ [x])"

text \<open>\<^verbatim>\<open>wrapIndex\<close>, then the bounds test of \<^verbatim>\<open>List.get\<close>.\<close>

definition wrapIndex :: "'a list \<Rightarrow> int \<Rightarrow> int" where
  "wrapIndex xs i = (if i < 0 then int (length xs) + i else i)"

definition list_get :: "'a list \<Rightarrow> int \<Rightarrow> 'a option" where
  "list_get xs i =
     (let j = wrapIndex xs i
      in if 0 \<le> j \<and> j < int (length xs) then Some (xs ! nat j) else None)"

text \<open>\<^verbatim>\<open>List.set\<close> at an index that \<^verbatim>\<open>get\<close> found.\<close>

definition list_set :: "'a list \<Rightarrow> int \<Rightarrow> 'a \<Rightarrow> 'a list" where
  "list_set xs i v = xs[nat (wrapIndex xs i) := v]"

text \<open>
  \<^verbatim>\<open>resolveBegin\<close>, \<^verbatim>\<open>resolveEnd\<close> and \<^verbatim>\<open>List.slice(begin, end)\<close>: a negative
  bound is relative to the size, a bound beyond the size is the size, and the slice is
  empty when it would end before it starts.
\<close>

definition resolveIndex :: "int \<Rightarrow> nat \<Rightarrow> nat" where
  "resolveIndex i n =
     (if i < 0 then nat (max 0 (int n + i)) else nat (min (int n) i))"

definition slice :: "'a list \<Rightarrow> int \<Rightarrow> int \<Rightarrow> 'a list" where
  "slice xs b e =
     (let rb = resolveIndex b (length xs); re = resolveIndex e (length xs)
      in take (re - rb) (drop rb xs))"

text \<open>\<^verbatim>\<open>slice(begin)\<close>, with no end. JavaScript's \<^verbatim>\<open>String.prototype.slice\<close> resolves
  its bounds the same way.\<close>

definition slice_from :: "'a list \<Rightarrow> int \<Rightarrow> 'a list" where
  "slice_from xs b = drop (resolveIndex b (length xs)) xs"

section \<open>The draft-js document model\<close>

text \<open>
  A \<^verbatim>\<open>CharacterMetadata\<close> carries the character's inline style. Its entity key is left
  out: the plugin never reads it, and the library operations used here change a
  character's entity without looking at its style.
\<close>

record character_metadata =
  getStyle :: draft_inline_style

text \<open>\<^verbatim>\<open>CharacterMetadata.applyStyle(record, style)\<close>.\<close>

definition applyStyle :: "character_metadata \<Rightarrow> string \<Rightarrow> character_metadata" where
  "applyStyle record' style = record'\<lparr>getStyle := ordered_set_add (getStyle record') style\<rparr>"

text \<open>
  A \<^verbatim>\<open>ContentBlock\<close>: its key, its text (one \<open>char\<close> for each UTF-16 code unit) and the
  metadata of each character. The block's type, depth and data are not read by the plugin.
\<close>

record content_block =
  getKey :: string
  getText :: string
  getCharacterList :: "character_metadata list"

definition getLength :: "content_block \<Rightarrow> int" where
  "getLength block = int (length (getText block))"

text \<open>\<^verbatim>\<open>ContentBlock.getInlineStyleAt(offset)\<close>: the empty set where there is no character.\<close>

definition getInlineStyleAt :: "content_block \<Rightarrow> int \<Rightarrow> draft_inline_style" where
  "getInlineStyleAt block offset =
     (case list_get (getCharacterList block) offset of
        None \<Rightarrow> []
      | Some character \<Rightarrow> getStyle character)"

text \<open>
  A \<^verbatim>\<open>SelectionState\<close>. \<^verbatim>\<open>createEmpty(key)\<close> is the collapsed, forward selection
  at offset 0 of the block.
\<close>

record selection_state =
  anchorKey :: string
  anchorOffset :: int
  focusKey :: string
  focusOffset :: int
  isBackward :: bool
  hasFocus :: bool

definition createEmpty :: "string \<Rightarrow> selection_state" where
  "createEmpty k =
     \<lparr>anchorKey = k, anchorOffset = 0, focusKey = k, focusOffset = 0,
      isBackward = False, hasFocus = False\<rparr>"

definition getStartKey :: "selection_state \<Rightarrow> string" where
  "getStartKey s = (if isBackward s then focusKey s else anchorKey s)"

definition getStartOffset :: "selection_state \<Rightarrow> int" where
  "getStartOffset s = (if isBackward s then focusOffset s else anchorOffset s)"

definition getEndKey :: "selection_state \<Rightarrow> string" where
  "getEndKey s = (if isBackward s then anchorKey s else focusKey s)"

definition getEndOffset :: "selection_state \<Rightarrow> int" where
  "getEndOffset s = (if isBackward s then anchorOffset s else focusOffset s)"

definition isCollapsed :: "selection_state \<Rightarrow> bool" where
  "isCollapsed s \<longleftrightarrow> anchorKey s = focusKey s \<and> anchorOffset s = focusOffset s"

text \<open>
  A \<^verbatim>\<open>ContentState\<close>: the block map, an \<^verbatim>\<open>OrderedMap\<close> from key to block, is the
  list of its blocks in document order; \<open>selectionAfter\<close> is where the editor puts the
  selection after the content is pushed. The entity map and \<^verbatim>\<open>selectionBefore\<close> (read by
  undo only) are left out.
\<close>

record content_state =
  getBlockMap :: "content_block list"
  getSelectionAfter :: selection_state

definition getBlockForKey :: "content_state \<Rightarrow> string \<Rightarrow> content_block option" where
  "getBlockForKey content k = find (\<lambda>block. getKey block = k) (getBlockMap content)"

text \<open>\<^verbatim>\<open>OrderedMap.set(key, block)\<close> and \<^verbatim>\<open>OrderedMap.merge(blocks)\<close>: a key that is
  present keeps its place, a new key goes to the end.\<close>

definition blockMap_set :: "content_block list \<Rightarrow> content_block \<Rightarrow> content_block list" where
  "blockMap_set bm block =
     (if \<exists>b \<in> set bm. getKey b = getKey block
      then map (\<lambda>b. if getKey b = getKey block then block else b) bm
      else bm @ [block])"

definition blockMap_merge :: "content_block list \<Rightarrow> content_block list \<Rightarrow> content_block list" where
  "blockMap_merge bm newBlocks = foldl blockMap_set bm newBlocks"

text \<open>
  An \<^verbatim>\<open>EditorState\<close>: the current content, the selection and the inline style override
  the editor keeps for the next typed character (\<open>None\<close> is \<^verbatim>\<open>null\<close>: no override).
  The undo and redo stacks, the decorator tree and the rendering flags are left out: the
  plugin neither reads them nor branches on them.
\<close>

record editor_state =
  getCurrentContent :: content_state
  getSelection :: selection_state
  getInlineStyleOverride :: "draft_inline_style option"

text \<open>
  \<^verbatim>\<open>EditorState.push(editorState, contentState, changeType)\<close> returns the editor state
  itself when it is given the content it already has (the test is object identity,
  here equality of the values). Otherwise the content is replaced, the selection becomes
  the content's \<open>selectionAfter\<close>, and the override is dropped unless the change type
  is one of the three that keep it. The plugin follows each \<open>push\<close> by
  \<open>acceptSelection\<close>, which sets the two fields on which the two branches differ.
\<close>

definition overrideChangeTypes :: "string list" where
  "overrideChangeTypes = [''adjust-depth'', ''change-block-type'', ''split-block'']"

definition push :: "editor_state \<Rightarrow> content_state \<Rightarrow> string option \<Rightarrow> editor_state" where
  "push editorState contentState changeType =
     (if getCurrentContent editorState = contentState then editorState
      else editorState
        \<lparr>getCurrentContent := contentState,
         getSelection := getSelectionAfter contentState,
         getInlineStyleOverride :=
           (case changeType of
              None \<Rightarrow> None
            | Some t \<Rightarrow> if t \<in> set overrideChangeTypes
                        then getInlineStyleOverride editorState else None)\<rparr>)"

text \<open>\<^verbatim>\<open>EditorState.acceptSelection\<close>, \<^verbatim>\<open>forceSelection\<close> and
  \<^verbatim>\<open>setInlineStyleOverride\<close>: the first two drop the override.\<close>

definition acceptSelection :: "editor_state \<Rightarrow> selection_state \<Rightarrow> editor_state" where
  "acceptSelection editorState sel =
     editorState\<lparr>getSelection := sel, getInlineStyleOverride := None\<rparr>"

definition forceSelection :: "editor_state \<Rightarrow> selection_state \<Rightarrow> editor_state" where
  "forceSelection editorState sel =
     editorState\<lparr>getSelection := sel\<lparr>hasFocus := True\<rparr>, getInlineStyleOverride := None\<rparr>"

definition setInlineStyleOverride :: "editor_state \<Rightarrow> draft_inline_style \<Rightarrow> editor_state" where
  "setInlineStyleOverride editorState s = editorState\<lparr>getInlineStyleOverride := Some s\<rparr>"


text \<open>
  \<^verbatim>\<open>EditorState.getCurrentInlineStyle()\<close>: the override when there is one, else the
  style of the character next to the start of the selection, looking upward through the
  document from an empty block.
\<close>

definition lookUpwardForInlineStyle :: "content_state \<Rightarrow> string \<Rightarrow> draft_inline_style" where
  "lookUpwardForInlineStyle content fromKey =
     (case dropWhile (\<lambda>block. getLength block = 0)
             (drop 1 (dropWhile (\<lambda>block. getKey block \<noteq> fromKey) (rev (getBlockMap content)))) of
        [] \<Rightarrow> []
      | lastNonEmpty # _ \<Rightarrow> getInlineStyleAt lastNonEmpty (getLength lastNonEmpty - 1))"

definition getInlineStyleForCollapsedSelection ::
  "content_state \<Rightarrow> selection_state \<Rightarrow> error + draft_inline_style" where
  "getInlineStyleForCollapsedSelection content sel =
     (let startKey = getStartKey sel; startOffset = getStartOffset sel
      in case getBlockForKey content startKey of
           None \<Rightarrow> Inl TypeError
         | Some startBlock \<Rightarrow>
             if startOffset > 0 then Inr (getInlineStyleAt startBlock (startOffset - 1))
             else if getLength startBlock \<noteq> 0 then Inr (getInlineStyleAt startBlock 0)
             else Inr (lookUpwardForInlineStyle content startKey))"

definition getInlineStyleForNonCollapsedSelection ::
  "content_state \<Rightarrow> selection_state \<Rightarrow> error + draft_inline_style" where
  "getInlineStyleForNonCollapsedSelection content sel =
     (let startKey = getStartKey sel; startOffset = getStartOffset sel
      in case getBlockForKey content startKey of
           None \<Rightarrow> Inl TypeError
         | Some startBlock \<Rightarrow>
             if startOffset < getLength startBlock then Inr (getInlineStyleAt startBlock startOffset)
             else if startOffset > 0 then Inr (getInlineStyleAt startBlock (startOffset - 1))
             else Inr (lookUpwardForInlineStyle content startKey))"

definition getCurrentInlineStyle :: "editor_state \<Rightarrow> error + draft_inline_style" where
  "getCurrentInlineStyle editorState =
     (case getInlineStyleOverride editorState of
        Some override \<Rightarrow> Inr override
      | None \<Rightarrow>
          if isCollapsed (getSelection editorState)
          then getInlineStyleForCollapsedSelection (getCurrentContent editorState)
                 (getSelection editorState)
          else getInlineStyleForNonCollapsedSelection (getCurrentContent editorState)
                 (getSelection editorState))"

section \<open>The draft-js modifiers\<close>

text \<open>
  \<^verbatim>\<open>Modifier.applyInlineStyle(contentState, selectionState, inlineStyle)\<close>. Its inner
  loop walks the offsets from \<open>sliceStart\<close> up to \<open>sliceEnd\<close>; an offset without a
  character makes \<^verbatim>\<open>CharacterMetadata.applyStyle\<close> dereference \<^verbatim>\<open>undefined\<close>.
\<close>

function applyStyleToRange ::
  "character_metadata list \<Rightarrow> string \<Rightarrow> int \<Rightarrow> int \<Rightarrow> error + character_metadata list" where
  "applyStyleToRange chars inlineStyle sliceStart sliceEnd =
     (if sliceStart < sliceEnd
      then (case list_get chars sliceStart of
              None \<Rightarrow> Inl TypeError
            | Some current \<Rightarrow>
                applyStyleToRange (list_set chars sliceStart (applyStyle current inlineStyle))
                  inlineStyle (sliceStart + 1) sliceEnd)
      else Inr chars)"
  by pat_completeness auto
termination
  by (relation "measure (\<lambda>(chars, inlineStyle, sliceStart, sliceEnd). nat (sliceEnd - sliceStart))")
    auto

declare applyStyleToRange.simps [simp del]

definition applyStyleToBlock ::
  "selection_state \<Rightarrow> string \<Rightarrow> content_block \<Rightarrow> error + content_block" where
  "applyStyleToBlock sel inlineStyle block =
     (let startKey = getStartKey sel; endKey = getEndKey sel; blockKey = getKey block;
          sliceStart = (if startKey = endKey then getStartOffset sel
                        else if blockKey = startKey then getStartOffset sel else 0);
          sliceEnd = (if startKey = endKey then getEndOffset sel
                      else if blockKey = endKey then getEndOffset sel else getLength block)
      in case applyStyleToRange (getCharacterList block) inlineStyle sliceStart sliceEnd of
           Inl e \<Rightarrow> Inl e
         | Inr chars \<Rightarrow> Inr (block\<lparr>getCharacterList := chars\<rparr>))"

fun map_blocks ::
  "(content_block \<Rightarrow> error + content_block) \<Rightarrow> content_block list \<Rightarrow> error + content_block list" where
  "map_blocks f [] = Inr []"
| "map_blocks f (block # rest) =
     (case f block of
        Inl e \<Rightarrow> Inl e
      | Inr block' \<Rightarrow>
          (case map_blocks f rest of Inl e \<Rightarrow> Inl e | Inr rest' \<Rightarrow> Inr (block' # rest')))"

definition applyInlineStyle ::
  "content_state \<Rightarrow> selection_state \<Rightarrow> string \<Rightarrow> error + content_state" where
  "applyInlineStyle contentState sel inlineStyle =
     (let blockMap = getBlockMap contentState;
          startKey = getStartKey sel; endKey = getEndKey sel
      in case getBlockForKey contentState endKey of
           None \<Rightarrow> Inl TypeError
         | Some endBlock \<Rightarrow>
             (case map_blocks (applyStyleToBlock sel inlineStyle)
                     (takeWhile (\<lambda>block. getKey block \<noteq> endKey)
                        (dropWhile (\<lambda>block. getKey block \<noteq> startKey) blockMap) @ [endBlock]) of
                Inl e \<Rightarrow> Inl e
              | Inr newBlocks \<Rightarrow>
                  Inr (contentState
                        \<lparr>getBlockMap := blockMap_merge blockMap newBlocks,
                         getSelectionAfter := sel\<rparr>)))"


text \<open>
  \<^verbatim>\<open>Modifier.replaceText(contentState, rangeToReplace, text, inlineStyle)\<close> removes the
  range (\<^verbatim>\<open>removeRangeFromContentState\<close>) and inserts the text at the collapsed selection
  this leaves (\<^verbatim>\<open>insertTextIntoContentState\<close>), every new character carrying
  \<open>inlineStyle\<close>. Its first step, \<^verbatim>\<open>removeEntitiesAtEdges\<close>, looks at the characters
  on both sides of the two ends of the range, clears entities there, and records the
  range as the content's \<open>selectionAfter\<close>.
\<close>

definition removeEntitiesAtEdges ::
  "content_state \<Rightarrow> selection_state \<Rightarrow> error + content_state" where
  "removeEntitiesAtEdges contentState sel =
     (case (getBlockForKey contentState (getStartKey sel),
            getBlockForKey contentState (getEndKey sel)) of
        (Some startBlock, Some endBlock) \<Rightarrow> Inr (contentState\<lparr>getSelectionAfter := sel\<rparr>)
      | _ \<Rightarrow> Inl TypeError)"

definition removeFromList :: "'a list \<Rightarrow> int \<Rightarrow> int \<Rightarrow> 'a list" where
  "removeFromList targetList startOffset endOffset =
     (if startOffset = 0 then drop (nat endOffset) targetList
      else if endOffset = int (length targetList)
      then take (length targetList - nat (endOffset - startOffset)) targetList
      else slice targetList 0 startOffset @ slice_from targetList endOffset)"

definition removeRangeFromContentState ::
  "content_state \<Rightarrow> selection_state \<Rightarrow> error + content_state" where
  "removeRangeFromContentState contentState sel =
     (if isCollapsed sel then Inr contentState
      else
        let blockMap = getBlockMap contentState;
            startKey = getStartKey sel; startOffset = getStartOffset sel;
            endKey = getEndKey sel; endOffset = getEndOffset sel
        in case (getBlockForKey contentState startKey, getBlockForKey contentState endKey) of
             (Some startBlock, Some endBlock) \<Rightarrow>
               let characterList =
                     (if startKey = endKey
                      then removeFromList (getCharacterList startBlock) startOffset endOffset
                      else slice (getCharacterList startBlock) 0 startOffset
                           @ slice_from (getCharacterList endBlock) endOffset);
                   modifiedStart = startBlock
                     \<lparr>getText := slice (getText startBlock) 0 startOffset
                                 @ slice_from (getText endBlock) endOffset,
                      getCharacterList := characterList\<rparr>;
                   removed = map getKey
                     (takeWhile (\<lambda>block. getKey block \<noteq> endKey)
                        (dropWhile (\<lambda>block. getKey block \<noteq> startKey) blockMap)) @ [endKey]
               in Inr (contentState
                    \<lparr>getBlockMap := concat (map (\<lambda>block.
                         if getKey block = startKey then [modifiedStart]
                         else if getKey block \<in> set removed then [] else [block]) blockMap),
                     getSelectionAfter := sel
                       \<lparr>anchorKey := startKey, anchorOffset := startOffset,
                        focusKey := startKey, focusOffset := startOffset,
                        isBackward := False\<rparr>\<rparr>)
           | _ \<Rightarrow> Inl TypeError)"

definition insertIntoList :: "'a list \<Rightarrow> 'a list \<Rightarrow> int \<Rightarrow> 'a list" where
  "insertIntoList targetList toInsert offset =
     (if offset = int (length targetList) then targetList @ toInsert
      else if offset = 0 then toInsert @ targetList
      else slice targetList 0 offset @ toInsert @ slice_from targetList offset)"

definition insertTextIntoContentState ::
  "content_state \<Rightarrow> selection_state \<Rightarrow> string \<Rightarrow> character_metadata \<Rightarrow> error + content_state" where
  "insertTextIntoContentState contentState sel txt characterMetadata =
     (if \<not> isCollapsed sel then Inl InvariantViolation
      else if txt = [] then Inr contentState
      else
        let blockMap = getBlockMap contentState;
            k = getStartKey sel; offset = getStartOffset sel
        in case getBlockForKey contentState k of
             None \<Rightarrow> Inl TypeError
           | Some block \<Rightarrow>
               let blockText = getText block;
                   newBlock = block
                     \<lparr>getText := slice blockText 0 offset @ txt
                                 @ slice blockText offset (getLength block),
                      getCharacterList :=
                        insertIntoList (getCharacterList block)
                          (replicate (length txt) characterMetadata) offset\<rparr>;
                   newOffset = offset + int (length txt)
               in Inr (contentState
                    \<lparr>getBlockMap := blockMap_set blockMap newBlock,
                     getSelectionAfter := sel\<lparr>anchorOffset := newOffset, focusOffset := newOffset\<rparr>\<rparr>))"

definition replaceText ::
  "content_state \<Rightarrow> selection_state \<Rightarrow> string \<Rightarrow> draft_inline_style \<Rightarrow> error + content_state" where
  "replaceText contentState rangeToReplace txt inlineStyle =
     (case removeEntitiesAtEdges contentState rangeToReplace of
        Inl e \<Rightarrow> Inl e
      | Inr withoutEntities \<Rightarrow>
          (case removeRangeFromContentState withoutEntities rangeToReplace of
             Inl e \<Rightarrow> Inl e
           | Inr withoutText \<Rightarrow>
               insertTextIntoContentState withoutText (getSelectionAfter withoutText) txt
                 \<lparr>getStyle = inlineStyle\<rparr>))"


section \<open>The plugin\<close>

text \<open>
  A strategy is the caller's matcher: it is handed a block and a callback, calls the
  callback with \<open>(start, end)\<close> pairs and returns, or throws. It is modelled by what it
  does on a block: the pairs it reports, in order, and the value it throws, if it throws.
  Offsets are JavaScript numbers, modelled as \<open>int\<close>. The fields of a decorator and of
  a \<^verbatim>\<open>StyleChange\<close> carry a prefix, since both records have a field \<^verbatim>\<open>styles\<close>.
\<close>

record strategy_result =
  reported :: "(int \<times> int) list"
  threw :: "string option"

record inline_style_decorator =
  decorator_strategy :: "content_block \<Rightarrow> strategy_result"
  decorator_styles :: "string list"

record style_change =
  change_start :: int
  change_end :: int
  change_styles :: "string list"
  change_blockKey :: string

subsection \<open>\<^verbatim>\<open>getChangesToApplyForState\<close>\<close>

definition cb :: "inline_style_decorator \<Rightarrow> string \<Rightarrow> int \<times> int \<Rightarrow> style_change" where
  "cb decorator blockKey = (\<lambda>(start, end').
     \<lparr>change_start = start, change_end = end',
      change_styles = decorator_styles decorator, change_blockKey = blockKey\<rparr>)"

fun forEach_block ::
  "inline_style_decorator \<Rightarrow> content_block list \<Rightarrow> style_change list \<Rightarrow> error + style_change list" where
  "forEach_block decorator [] changes = Inr changes"
| "forEach_block decorator (block # rest) changes =
     (let r = decorator_strategy decorator block;
          changes' = changes @ map (cb decorator (getKey block)) (reported r)
      in case threw r of
           Some v \<Rightarrow> Inl (Thrown v)
         | None \<Rightarrow> forEach_block decorator rest changes')"

definition getChangesToApplyForState ::
  "inline_style_decorator \<Rightarrow> editor_state \<Rightarrow> error + style_change list" where
  "getChangesToApplyForState decorator editorState =
     forEach_block decorator (getBlockMap (getCurrentContent editorState)) []"

subsection \<open>\<^verbatim>\<open>limitSelection\<close> and \<^verbatim>\<open>createSelectionForChange\<close>\<close>

definition limitSelection :: "selection_state \<Rightarrow> content_block \<Rightarrow> selection_state" where
  "limitSelection sel block =
     (sel\<lparr>anchorOffset := max (getStartOffset sel) 0\<rparr>)
        \<lparr>focusOffset := min (int (length (getText block))) (getEndOffset sel)\<rparr>"

definition createSelectionForChange :: "style_change \<Rightarrow> selection_state" where
  "createSelectionForChange change =
     (createEmpty (change_blockKey change))
        \<lparr>anchorOffset := change_start change, focusOffset := change_end change\<rparr>"

subsection \<open>\<^verbatim>\<open>applyInlineStyles\<close>\<close>

text \<open>
  The reducer reads the block from \<open>content\<close>, the document the function was called
  with, and compares the styles of the selected characters with \<open>styles\<close>, the whole
  array, once for every style of the array. The counter \<open>changesApplied\<close> that
  \<^verbatim>\<open>incrementApplied\<close> bumps is threaded through.
\<close>

fun applyInlineStyles_reduce ::
  "content_state \<Rightarrow> selection_state \<Rightarrow> string list \<Rightarrow> string list \<Rightarrow> content_state \<times> nat
     \<Rightarrow> error + content_state \<times> nat" where
  "applyInlineStyles_reduce content sel styles [] acc = Inr acc"
| "applyInlineStyles_reduce content sel styles (style # rest) (accContent, changesApplied) =
     (case getBlockForKey content (getStartKey sel) of
        None \<Rightarrow> Inl TypeError
      | Some block \<Rightarrow>
          let chars = slice (getCharacterList block) (getStartOffset sel) (getEndOffset sel);
              stylesInBlock = map getStyle chars;
              styleList = replicate (length stylesInBlock) styles;
              needToChange = (stylesInBlock \<noteq> styleList);
              changesApplied' = (if needToChange then changesApplied + 1 else changesApplied)
          in case applyInlineStyle accContent sel style of
               Inl e \<Rightarrow> Inl e
             | Inr accContent' \<Rightarrow>
                 applyInlineStyles_reduce content sel styles rest (accContent', changesApplied'))"

definition applyInlineStyles ::
  "content_state \<Rightarrow> selection_state \<Rightarrow> string list \<Rightarrow> nat \<Rightarrow> error + content_state \<times> nat" where
  "applyInlineStyles content sel styles changesApplied =
     applyInlineStyles_reduce content sel styles styles (content, changesApplied)"

subsection \<open>\<^verbatim>\<open>resetStateToUnstyled\<close> and \<^verbatim>\<open>applyChangesToState\<close>\<close>

definition resetStateToUnstyled :: "editor_state \<Rightarrow> editor_state" where
  "resetStateToUnstyled editorState = setInlineStyleOverride editorState []"

fun applyChanges_reduce ::
  "style_change list \<Rightarrow> content_state \<times> nat \<Rightarrow> error + content_state \<times> nat" where
  "applyChanges_reduce [] acc = Inr acc"
| "applyChanges_reduce (change # rest) (newContent, changesApplied) =
     (case getBlockForKey newContent (change_blockKey change) of
        None \<Rightarrow> Inl TypeError
      | Some block \<Rightarrow>
          (case applyInlineStyles newContent
                  (limitSelection (createSelectionForChange change) block)
                  (change_styles change) changesApplied of
             Inl e \<Rightarrow> Inl e
           | Inr acc' \<Rightarrow> applyChanges_reduce rest acc'))"

text \<open>
  The declared result is \<^verbatim>\<open>void | EditorState\<close>: \<open>None\<close> stands for \<^verbatim>\<open>undefined\<close>,
  which the callers replace by a state of their own (\<^verbatim>\<open>... || state\<close>).
\<close>

definition applyChangesToState ::
  "style_change list \<Rightarrow> editor_state \<Rightarrow> error + editor_state option" where
  "applyChangesToState changes state =
     (case applyChanges_reduce changes (getCurrentContent state, 0) of
        Inl e \<Rightarrow> Inl e
      | Inr (content, changesApplied) \<Rightarrow>
          let maybeTheNewState = resetStateToUnstyled
                (acceptSelection (push state content (Some ''apply-inline-styles''))
                   (getSelection state))
          in Inr (Some (if changesApplied = 0 then state else maybeTheNewState)))"

subsection \<open>\<^verbatim>\<open>syncExecuteStrategies\<close>\<close>

fun collect_changes ::
  "inline_style_decorator list \<Rightarrow> editor_state \<Rightarrow> style_change list \<Rightarrow> error + style_change list" where
  "collect_changes [] editorState changes = Inr changes"
| "collect_changes (decorator # rest) editorState changes =
     (case getChangesToApplyForState decorator editorState of
        Inl e \<Rightarrow> Inl e
      | Inr changesInDecorator \<Rightarrow> collect_changes rest editorState (changes @ changesInDecorator))"

definition syncExecuteStrategies ::
  "inline_style_decorator list \<Rightarrow> (unit \<Rightarrow> editor_state) \<Rightarrow> error + editor_state option" where
  "syncExecuteStrategies decorators getEditorState =
     (let editorState = getEditorState ()
      in case collect_changes decorators editorState [] of
           Inl e \<Rightarrow> Inl e
         | Inr changesToApply \<Rightarrow> applyChangesToState changesToApply (getEditorState ()))"

text \<open>The counter of the pass that \<open>syncExecuteStrategies\<close> runs, which the function
  itself only tests against zero.\<close>

definition changesApplied_of ::
  "inline_style_decorator list \<Rightarrow> editor_state \<Rightarrow> error + nat" where
  "changesApplied_of decorators editorState =
     (case collect_changes decorators editorState [] of
        Inl e \<Rightarrow> Inl e
      | Inr changesToApply \<Rightarrow>
          (case applyChanges_reduce changesToApply (getCurrentContent editorState, 0) of
             Inl e \<Rightarrow> Inl e
           | Inr (content, changesApplied) \<Rightarrow> Inr changesApplied))"

subsection \<open>The host editor, its timers, and the deferred functions\<close>

text \<open>
  The callbacks the host hands to the key hooks read and write the editor state the
  host holds. \<^verbatim>\<open>setTimeout\<close> queues a callback; the two callbacks the plugin queues are
  \<^verbatim>\<open>() => stripStyles(callbacks, afterwards)\<close>, where both hooks pass the same
  \<open>afterwards\<close> (run \<open>executeStrategies\<close> on the stripped state), and the body of
  \<open>executeStrategies\<close>, which closes over the state it was given. What the host does
  with a state handed to \<^verbatim>\<open>setEditorState\<close> beyond storing it is not the plugin's.
\<close>

datatype task = StripStylesTask | ExecuteStrategiesTask editor_state

record host =
  hostEditorState :: editor_state
  timers :: "task list"

definition executeStrategies :: "inline_style_decorator list \<Rightarrow> editor_state \<Rightarrow> host \<Rightarrow> host" where
  "executeStrategies decorators newState h = h\<lparr>timers := timers h @ [ExecuteStrategiesTask newState]\<rparr>"

definition executeStrategies_timeout ::
  "inline_style_decorator list \<Rightarrow> editor_state \<Rightarrow> host \<Rightarrow> error + host" where
  "executeStrategies_timeout decorators newState h =
     (case syncExecuteStrategies decorators (\<lambda>_. newState) of
        Inl e \<Rightarrow> Inl e
      | Inr result \<Rightarrow>
          Inr (h\<lparr>hostEditorState := (case result of Some s \<Rightarrow> s | None \<Rightarrow> newState)\<rparr>))"

fun stripStyles_reduce :: "content_block list \<Rightarrow> content_state \<Rightarrow> error + content_state" where
  "stripStyles_reduce [] contentState = Inr contentState"
| "stripStyles_reduce (block # rest) contentState =
     (let allBlock = (createEmpty (getKey block))
            \<lparr>anchorOffset := 0, focusOffset := int (length (getText block))\<rparr>
      in case replaceText contentState allBlock (getText block) [] of
           Inl e \<Rightarrow> Inl e
         | Inr contentState' \<Rightarrow> stripStyles_reduce rest contentState')"

definition stripStyles :: "host \<Rightarrow> (editor_state \<Rightarrow> host \<Rightarrow> host) \<Rightarrow> error + host" where
  "stripStyles h afterwards =
     (let state = hostEditorState h; currentContent = getCurrentContent state
      in case stripStyles_reduce (getBlockMap currentContent) currentContent of
           Inl e \<Rightarrow> Inl e
         | Inr newContent \<Rightarrow>
             Inr (afterwards (acceptSelection (push state newContent None) (getSelection state)) h))"

definition checkIfWeNeedToStripStyles :: "host \<Rightarrow> error + bool option \<times> host" where
  "checkIfWeNeedToStripStyles h =
     (let currentState = hostEditorState h;
          selectedState = forceSelection currentState (getSelection currentState)
      in case getCurrentInlineStyle selectedState of
           Inl e \<Rightarrow> Inl e
         | Inr currentInlineStyle \<Rightarrow>
             if length currentInlineStyle > 0
             then Inr (Some True, h\<lparr>timers := timers h @ [StripStylesTask]\<rparr>)
             else Inr (None, h))"

subsection \<open>The hooks\<close>

definition onChange :: "inline_style_decorator list \<Rightarrow> editor_state \<Rightarrow> error + editor_state" where
  "onChange decorators state =
     (case syncExecuteStrategies decorators (\<lambda>_. state) of
        Inl e \<Rightarrow> Inl e
      | Inr result \<Rightarrow>
          let newState = (case result of Some s \<Rightarrow> s | None \<Rightarrow> state)
          in Inr (setInlineStyleOverride newState []))"

definition handleKeyCommand :: "inline_style_decorator list \<Rightarrow> string \<Rightarrow> host \<Rightarrow> error + host" where
  "handleKeyCommand decorators command h =
     (if command = ''backspace''
      then (case checkIfWeNeedToStripStyles h of Inl e \<Rightarrow> Inl e | Inr (_, h') \<Rightarrow> Inr h')
      else Inr h)"

definition handleReturn :: "inline_style_decorator list \<Rightarrow> host \<Rightarrow> error + host" where
  "handleReturn decorators h =
     (case checkIfWeNeedToStripStyles h of Inl e \<Rightarrow> Inl e | Inr (_, h') \<Rightarrow> Inr h')"

text \<open>
  One turn of the host's event loop: the oldest queued callback runs. An exception it
  throws is uncaught and leaves the host as it was when the callback started.
\<close>

definition runTask :: "inline_style_decorator list \<Rightarrow> task \<Rightarrow> host \<Rightarrow> error + host" where
  "runTask decorators t h =
     (case t of
        StripStylesTask \<Rightarrow> stripStyles h (executeStrategies decorators)
      | ExecuteStrategiesTask newState \<Rightarrow> executeStrategies_timeout decorators newState h)"

definition runNextTimer ::
  "inline_style_decorator list \<Rightarrow> host \<Rightarrow> (error option \<times> host) option" where
  "runNextTimer decorators h =
     (case timers h of
        [] \<Rightarrow> None
      | t # rest \<Rightarrow>
          let h' = h\<lparr>timers := rest\<rparr>
          in (case runTask decorators t h' of
                Inl e \<Rightarrow> Some (Some e, h')
              | Inr h'' \<Rightarrow> Some (None, h'')))"

section \<open>What a pass collects\<close>

text \<open>
  The changes one strategy reports on one block, on all blocks, and the changes of all
  decorators: what \<open>collect_changes\<close> returns when no strategy throws.
\<close>

definition changes_in_block :: "inline_style_decorator \<Rightarrow> content_block \<Rightarrow> style_change list" where
  "changes_in_block decorator block =
     map (cb decorator (getKey block)) (reported (decorator_strategy decorator block))"

definition changes_of_decorator ::
  "inline_style_decorator \<Rightarrow> content_block list \<Rightarrow> style_change list" where
  "changes_of_decorator decorator blocks = concat (map (changes_in_block decorator) blocks)"

definition all_changes ::
  "inline_style_decorator list \<Rightarrow> content_block list \<Rightarrow> style_change list" where
  "all_changes decorators blocks = concat (map (\<lambda>d. changes_of_decorator d blocks) decorators)"

definition throws_on :: "inline_style_decorator \<Rightarrow> content_block \<Rightarrow> bool" where
  "throws_on decorator block \<longleftrightarrow> threw (decorator_strategy decorator block) \<noteq> None"

section \<open>Well-formed documents\<close>

text \<open>
  What draft-js maintains for every document: block keys are unique (the block map is a
  map), and a block has one \<^verbatim>\<open>CharacterMetadata\<close> for each character of its text.
\<close>

definition wf_block :: "content_block \<Rightarrow> bool" where
  "wf_block block \<longleftrightarrow> length (getCharacterList block) = length (getText block)"

definition wf_content :: "content_state \<Rightarrow> bool" where
  "wf_content content \<longleftrightarrow>
     distinct (map getKey (getBlockMap content)) \<and> list_all wf_block (getBlockMap content)"

text \<open>A block with the same key and text, every character carrying the empty style.\<close>

definition unstyled :: "content_block \<Rightarrow> content_block" where
  "unstyled block =
     block\<lparr>getCharacterList := replicate (length (getText block)) \<lparr>getStyle = []\<rparr>\<rparr>"

section \<open>What a pass does to the blocks\<close>

text \<open>
  The functions below describe, block by block and character by character, what the
  reducers above compute; the lemmas of the last section prove that they do.
  \<open>restyle P f chars\<close> rewrites the style of the characters whose index satisfies \<open>P\<close>;
  \<open>apply_change\<close> is the effect of one change on one block: on the block the change
  names, every style of the change is added, in order, to each character from
  \<open>max start 0\<close> up to \<open>min length end\<close>; \<open>needToChange\<close> is the comparison of
  \<^verbatim>\<open>applyInlineStyles\<close>, and \<open>count_changes\<close> adds up its increments.
\<close>

definition restyle ::
  "(nat \<Rightarrow> bool) \<Rightarrow> (draft_inline_style \<Rightarrow> draft_inline_style) \<Rightarrow> character_metadata list
     \<Rightarrow> character_metadata list" where
  "restyle P f chars =
     map (\<lambda>(i, c). if P i then c\<lparr>getStyle := f (getStyle c)\<rparr> else c) (enumerate 0 chars)"

definition style_block ::
  "string \<Rightarrow> int \<Rightarrow> int \<Rightarrow> (draft_inline_style \<Rightarrow> draft_inline_style) \<Rightarrow> content_block \<Rightarrow> content_block" where
  "style_block k a f g block =
     (if getKey block = k
      then block\<lparr>getCharacterList :=
             restyle (\<lambda>i. a \<le> int i \<and> int i < f) g (getCharacterList block)\<rparr>
      else block)"

definition needToChange :: "content_block \<Rightarrow> selection_state \<Rightarrow> string list \<Rightarrow> bool" where
  "needToChange block sel styles \<longleftrightarrow>
     map getStyle (slice (getCharacterList block) (getStartOffset sel) (getEndOffset sel))
       \<noteq> replicate (length (slice (getCharacterList block) (getStartOffset sel) (getEndOffset sel)))
           styles"

definition add_styles :: "draft_inline_style \<Rightarrow> string list \<Rightarrow> draft_inline_style" where
  "add_styles s styles = foldl ordered_set_add s styles"

definition apply_change :: "style_change \<Rightarrow> content_block \<Rightarrow> content_block" where
  "apply_change change block =
     style_block (change_blockKey change) (max (change_start change) 0)
       (min (int (length (getText block))) (change_end change))
       (\<lambda>s. add_styles s (change_styles change)) block"

fun apply_changes :: "style_change list \<Rightarrow> content_block list \<Rightarrow> content_block list" where
  "apply_changes [] blocks = blocks"
| "apply_changes (change # rest) blocks = apply_changes rest (map (apply_change change) blocks)"

definition change_needed :: "style_change \<Rightarrow> content_block list \<Rightarrow> bool" where
  "change_needed change blocks =
     (case find (\<lambda>block. getKey block = change_blockKey change) blocks of
        None \<Rightarrow> False
      | Some block \<Rightarrow>
          needToChange block (limitSelection (createSelectionForChange change) block)
            (change_styles change))"

fun count_changes :: "style_change list \<Rightarrow> content_block list \<Rightarrow> nat" where
  "count_changes [] blocks = 0"
| "count_changes (change # rest) blocks =
     (if change_needed change blocks then length (change_styles change) else 0)
     + count_changes rest (map (apply_change change) blocks)"

text \<open>The conditions under which a pass is studied: no strategy throws on a block of the
  document, and every change names a block of the document (as every collected change
  does).\<close>

definition never_throws :: "inline_style_decorator list \<Rightarrow> content_block list \<Rightarrow> bool" where
  "never_throws decorators blocks \<longleftrightarrow>
     (\<forall>d \<in> set decorators. \<forall>block \<in> set blocks. \<not> throws_on d block)"

definition keys_present :: "style_change list \<Rightarrow> content_block list \<Rightarrow> bool" where
  "keys_present changes blocks \<longleftrightarrow>
     (\<forall>change \<in> set changes. change_blockKey change \<in> getKey ` set blocks)"

definition covers :: "style_change \<Rightarrow> content_block \<Rightarrow> nat \<Rightarrow> bool" where
  "covers change block i \<longleftrightarrow>
     change_blockKey change = getKey block \<and>
     max (change_start change) 0 \<le> int i \<and>
     int i < min (int (length (getText block))) (change_end change)"

definition block_after :: "style_change list \<Rightarrow> content_block \<Rightarrow> content_block" where
  "block_after changes block = foldl (\<lambda>b change. apply_change change b) block changes"

text \<open>
  The comparison of the reconciler in the words of its specification, for a change and
  a block: some character of the clamped selection does not carry exactly the styles of
  the change (\<open>differs_in_range\<close>), or does not carry one given style as its sole
  style (\<open>lacks_sole_style\<close>); \<open>count_spec\<close> adds, change after change, one increment
  for each style of a change whose range differs.
\<close>

definition differs_in_range :: "style_change \<Rightarrow> content_block \<Rightarrow> bool" where
  "differs_in_range change block \<longleftrightarrow>
     list_ex (\<lambda>i. covers change block i \<and>
                  getStyle (getCharacterList block ! i) \<noteq> change_styles change)
       [0..<length (getCharacterList block)]"

fun count_spec :: "style_change list \<Rightarrow> content_block list \<Rightarrow> nat" where
  "count_spec [] blocks = 0"
| "count_spec (change # rest) blocks =
     (if \<exists>block \<in> set blocks. differs_in_range change block
      then length (change_styles change) else 0)
     + count_spec rest (map (apply_change change) blocks)"

definition lacks_sole_style :: "style_change \<Rightarrow> content_block \<Rightarrow> string \<Rightarrow> bool" where
  "lacks_sole_style change block style' \<longleftrightarrow>
     list_ex (\<lambda>i. covers change block i \<and> getStyle (getCharacterList block ! i) \<noteq> [style'])
       [0..<length (getCharacterList block)]"

definition nonnegative_ends :: "style_change list \<Rightarrow> bool" where
  "nonnegative_ends changes \<longleftrightarrow> list_all (\<lambda>change. 0 \<le> change_end change) changes"

text \<open>
  The conditions under which a second pass finds nothing to do: the strategies read a
  block's key and text only; no rule lists a style twice; two changes that cover the
  same character carry the same styles; and a character that a change covers carries no
  style or exactly the styles of the change.
\<close>

definition text_only :: "inline_style_decorator list \<Rightarrow> bool" where
  "text_only decorators \<longleftrightarrow>
     (\<forall>d \<in> set decorators. \<forall>b b'. getKey b = getKey b' \<and> getText b = getText b'
        \<longrightarrow> decorator_strategy d b = decorator_strategy d b')"

definition distinct_styles :: "style_change list \<Rightarrow> bool" where
  "distinct_styles changes \<longleftrightarrow> list_all (\<lambda>change. distinct (change_styles change)) changes"

definition agree_on_overlap :: "style_change list \<Rightarrow> content_block list \<Rightarrow> bool" where
  "agree_on_overlap changes blocks \<longleftrightarrow>
     list_all (\<lambda>c1. list_all (\<lambda>c2. list_all (\<lambda>block.
       list_all (\<lambda>i. covers c1 block i \<and> covers c2 block i \<longrightarrow> change_styles c1 = change_styles c2)
         [0..<length (getCharacterList block)]) blocks) changes) changes"

definition unstyled_or_settled :: "style_change list \<Rightarrow> content_block list \<Rightarrow> bool" where
  "unstyled_or_settled changes blocks \<longleftrightarrow>
     list_all (\<lambda>change. list_all (\<lambda>block.
       list_all (\<lambda>i. covers change block i \<longrightarrow>
                   getStyle (getCharacterList block ! i) = [] \<or>
                   getStyle (getCharacterList block ! i) = change_styles change)
         [0..<length (getCharacterList block)]) blocks) changes"

section \<open>Example inputs\<close>

text \<open>Strategies that report the same ranges on every block, or throw on every block.\<close>

definition reports :: "(int \<times> int) list \<Rightarrow> content_block \<Rightarrow> strategy_result" where
  "reports ranges block = \<lparr>reported = ranges, threw = None\<rparr>"

definition throwing :: "string \<Rightarrow> content_block \<Rightarrow> strategy_result" where
  "throwing v block = \<lparr>reported = [], threw = Some v\<rparr>"

definition unstyled_block :: "string \<Rightarrow> string \<Rightarrow> content_block" where
  "unstyled_block k txt =
     \<lparr>getKey = k, getText = txt, getCharacterList = replicate (length txt) \<lparr>getStyle = []\<rparr>\<rparr>"

definition state_of_blocks :: "content_block list \<Rightarrow> draft_inline_style option \<Rightarrow> editor_state" where
  "state_of_blocks blocks override =
     \<lparr>getCurrentContent = \<lparr>getBlockMap = blocks, getSelectionAfter = createEmpty ''a''\<rparr>,
      getSelection = createEmpty ''a'', getInlineStyleOverride = override\<rparr>"

text \<open>The document and the two rules of the README.\<close>

definition readme_state :: editor_state where
  "readme_state = state_of_blocks [unstyled_block ''a'' ''*bold* and ~under~''] None"

definition readme_decorators :: "inline_style_decorator list" where
  "readme_decorators =
     [\<lparr>decorator_strategy = reports [(0, 6)], decorator_styles = [''BOLD'']\<rparr>,
      \<lparr>decorator_strategy = reports [(11, 18)], decorator_styles = [''UNDERLINE'']\<rparr>]"

definition failing_decorators :: "inline_style_decorator list" where
  "failing_decorators =
     [\<lparr>decorator_strategy = reports [(0, 6)], decorator_styles = [''BOLD'']\<rparr>,
      \<lparr>decorator_strategy = throwing ''boom'', decorator_styles = [''UNDERLINE'']\<rparr>]"

definition get_readme_state :: "unit \<Rightarrow> editor_state" where
  "get_readme_state u = readme_state"

text \<open>The README's document after one pass.\<close>

definition styled_block :: "string \<Rightarrow> string \<Rightarrow> draft_inline_style list \<Rightarrow> content_block" where
  "styled_block k txt ss =
     \<lparr>getKey = k, getText = txt, getCharacterList = map (\<lambda>s. \<lparr>getStyle = s\<rparr>) ss\<rparr>"

definition readme_styled_state :: editor_state where
  "readme_styled_state =
     \<lparr>getCurrentContent =
        \<lparr>getBlockMap = [styled_block ''a'' ''*bold* and ~under~''
            (replicate 6 [''BOLD''] @ replicate 5 [] @ replicate 7 [''UNDERLINE''])],
         getSelectionAfter = (createEmpty ''a'')\<lparr>anchorOffset := 11, focusOffset := 18\<rparr>\<rparr>,
      getSelection = createEmpty ''a'', getInlineStyleOverride = Some []\<rparr>"

text \<open>A rule whose matcher reports nothing, and a state with a pending override.\<close>

definition quiet_decorators :: "inline_style_decorator list" where
  "quiet_decorators = [\<lparr>decorator_strategy = reports [], decorator_styles = [''BOLD'']\<rparr>]"

definition overridden_state :: editor_state where
  "overridden_state = state_of_blocks [unstyled_block ''a'' ''abc''] (Some [''BOLD''])"

definition get_overridden_state :: "unit \<Rightarrow> editor_state" where
  "get_overridden_state u = overridden_state"

text \<open>Hosts with no timer pending, holding the README's document before and after a pass.\<close>

definition plain_host :: host where
  "plain_host = \<lparr>hostEditorState = readme_state, timers = []\<rparr>"

definition styled_host :: host where
  "styled_host = \<lparr>hostEditorState = readme_styled_state, timers = []\<rparr>"

text \<open>Changes and a rule with offsets outside the text.\<close>

definition far_change :: style_change where
  "far_change = \<lparr>change_start = 10, change_end = 20, change_styles = [''BOLD''],
                  change_blockKey = ''a''\<rparr>"

definition wide_change :: style_change where
  "wide_change = \<lparr>change_start = - 3, change_end = 100, change_styles = [''BOLD''],
                  change_blockKey = ''a''\<rparr>"

definition wild_decorators :: "inline_style_decorator list" where
  "wild_decorators =
     [\<lparr>decorator_strategy = reports [(- 5, - 2), (10, 20), (- 3, 100), (7, 2)],
       decorator_styles = [''BOLD'', ''ITALIC'']\<rparr>]"

definition bold_rule :: inline_style_decorator where
  "bold_rule = \<lparr>decorator_strategy = reports [(0, 6)], decorator_styles = [''BOLD'']\<rparr>"

definition italic_rule :: inline_style_decorator where
  "italic_rule = \<lparr>decorator_strategy = reports [(3, 10)], decorator_styles = [''ITALIC'']\<rparr>"

definition overlap_decorators :: "inline_style_decorator list" where
  "overlap_decorators = [bold_rule, italic_rule]"

definition readme_block :: content_block where
  "readme_block = unstyled_block ''a'' ''*bold* and ~under~''"

definition both_change :: style_change where
  "both_change = \<lparr>change_start = 0, change_end = 3, change_styles = [''BOLD'', ''ITALIC''],
                   change_blockKey = ''a''\<rparr>"

definition both_block :: content_block where
  "both_block = styled_block ''a'' ''abc'' (replicate 3 [''BOLD'', ''ITALIC''])"

definition both_content :: content_state where
  "both_content = \<lparr>getBlockMap = [both_block], getSelectionAfter = createEmpty ''a''\<rparr>"

definition overlap_styled_state :: editor_state where
  "overlap_styled_state =
     \<lparr>getCurrentContent =
        \<lparr>getBlockMap = [styled_block ''a'' ''*bold* and ~under~''
            (replicate 3 [''BOLD''] @ replicate 3 [''BOLD'', ''ITALIC'']
             @ replicate 4 [''ITALIC''] @ replicate 8 [])],
         getSelectionAfter = (createEmpty ''a'')\<lparr>anchorOffset := 3, focusOffset := 10\<rparr>\<rparr>,
      getSelection = createEmpty ''a'', getInlineStyleOverride = Some []\<rparr>"

section \<open>Properties\<close>

subsection \<open>Range collection\<close>

lemma forEach_block_ok:
  "\<forall>b \<in> set bs. \<not> throws_on d b \<Longrightarrow>
   forEach_block d bs acc = Inr (acc @ changes_of_decorator d bs)"
  by (induction bs arbitrary: acc)
     (auto simp: changes_of_decorator_def changes_in_block_def throws_on_def Let_def)

lemma forEach_block_throws:
  "\<exists>b \<in> set bs. throws_on d b \<Longrightarrow>
   \<exists>b \<in> set bs. \<exists>v. threw (decorator_strategy d b) = Some v \<and> forEach_block d bs acc = Inl (Thrown v)"
proof (induction bs arbitrary: acc)
  case Nil
  then show ?case by simp
next
  case (Cons b bs)
  show ?case
  proof (cases "threw (decorator_strategy d b)")
    case None
    with Cons.prems have "\<exists>b \<in> set bs. throws_on d b" by (auto simp: throws_on_def)
    from Cons.IH [OF this] None show ?thesis by (auto simp: Let_def)
  next
    case (Some v)
    then show ?thesis by (auto simp: Let_def)
  qed
qed

lemma collect_changes_ok:
  "\<forall>d \<in> set ds. \<forall>b \<in> set (getBlockMap (getCurrentContent st)). \<not> throws_on d b \<Longrightarrow>
   collect_changes ds st acc = Inr (acc @ all_changes ds (getBlockMap (getCurrentContent st)))"
  by (induction ds arbitrary: acc)
     (auto simp: all_changes_def getChangesToApplyForState_def forEach_block_ok)

lemma collect_changes_throws:
  "\<exists>d \<in> set ds. \<exists>b \<in> set (getBlockMap (getCurrentContent st)). throws_on d b \<Longrightarrow>
   \<exists>d \<in> set ds. \<exists>b \<in> set (getBlockMap (getCurrentContent st)). \<exists>v.
      threw (decorator_strategy d b) = Some v \<and> collect_changes ds st acc = Inl (Thrown v)"
proof (induction ds arbitrary: acc)
  case Nil
  then show ?case by simp
next
  case (Cons d ds)
  let ?bs = "getBlockMap (getCurrentContent st)"
  show ?case
  proof (cases "\<exists>b \<in> set ?bs. throws_on d b")
    case True
    from forEach_block_throws [OF True, of "[]"] show ?thesis
      by (auto simp: getChangesToApplyForState_def)
  next
    case False
    with Cons.prems have "\<exists>d \<in> set ds. \<exists>b \<in> set ?bs. throws_on d b" by auto
    from Cons.IH [OF this] False show ?thesis
      by (simp add: getChangesToApplyForState_def forEach_block_ok)
  qed
qed

lemma readme_failing_throws:
  "\<exists>d \<in> set failing_decorators.
     \<exists>b \<in> set (getBlockMap (getCurrentContent readme_state)). throws_on d b"
  by (simp add: failing_decorators_def readme_state_def state_of_blocks_def throws_on_def
      throwing_def)

text \<open>
  C9. If a matcher throws on a block of the document, the pass returns no result: the
  value one of the matchers threw on one of the blocks leaves \<open>syncExecuteStrategies\<close>
  as an uncaught exception. The collection is not tried again, and nothing is applied.
\<close>

theorem matcher_error_propagates:
  assumes "\<exists>d \<in> set ds. \<exists>b \<in> set (getBlockMap (getCurrentContent (g ()))). throws_on d b"
  shows "\<exists>d \<in> set ds. \<exists>b \<in> set (getBlockMap (getCurrentContent (g ()))). \<exists>v.
           threw (decorator_strategy d b) = Some v \<and>
           syncExecuteStrategies ds g = Inl (Thrown v)"
proof -
  from collect_changes_throws [OF assms, of "[]"] obtain d b v where
    "d \<in> set ds" "b \<in> set (getBlockMap (getCurrentContent (g ())))"
    "threw (decorator_strategy d b) = Some v" "collect_changes ds (g ()) [] = Inl (Thrown v)"
    by blast
  then show ?thesis
    by (intro bexI [of _ d] bexI [of _ b] exI [of _ v]) (simp_all add: syncExecuteStrategies_def)
qed

lemma readme_failing_pass:
  "syncExecuteStrategies failing_decorators (\<lambda>_. readme_state) = Inl (Thrown ''boom'')"
  by code_simp

theorem matcher_error_propagates_witness:
  "(\<exists>d \<in> set failing_decorators.
      \<exists>b \<in> set (getBlockMap (getCurrentContent readme_state)). throws_on d b) \<and>
   (\<exists>d \<in> set failing_decorators. \<exists>b \<in> set (getBlockMap (getCurrentContent readme_state)). \<exists>v.
      threw (decorator_strategy d b) = Some v \<and>
      syncExecuteStrategies failing_decorators (\<lambda>_. readme_state) = Inl (Thrown v)) \<and>
   syncExecuteStrategies failing_decorators (\<lambda>_. readme_state) = Inl (Thrown ''boom'')"
  using matcher_error_propagates [of failing_decorators "\<lambda>_. readme_state"] readme_failing_throws
    readme_failing_pass
  by simp

text \<open>
  C10. A pass collects every change before it applies any. If a matcher throws, the pass
  produces no editor state at all, from \<open>syncExecuteStrategies\<close> or from \<open>onChange\<close>,
  and the deferred pass leaves the host holding the editor state it held: nothing has
  been styled when the exception leaves.
\<close>

theorem matcher_error_atomic:
  assumes "\<exists>d \<in> set ds. \<exists>b \<in> set (getBlockMap (getCurrentContent st)). throws_on d b"
  shows "\<exists>e. syncExecuteStrategies ds (\<lambda>_. st) = Inl e \<and> onChange ds st = Inl e \<and>
           runNextTimer ds (h\<lparr>timers := ExecuteStrategiesTask st # rest\<rparr>)
             = Some (Some e, h\<lparr>timers := rest\<rparr>)"
proof -
  from collect_changes_throws [OF assms, of "[]"] obtain v where
    "collect_changes ds st [] = Inl (Thrown v)" by blast
  then have "syncExecuteStrategies ds (\<lambda>_. st) = Inl (Thrown v)"
    by (simp add: syncExecuteStrategies_def)
  then show ?thesis
    by (simp add: onChange_def runNextTimer_def runTask_def executeStrategies_timeout_def)
qed

theorem matcher_error_atomic_witness:
  "(\<exists>d \<in> set failing_decorators.
      \<exists>b \<in> set (getBlockMap (getCurrentContent readme_state)). throws_on d b) \<and>
   (\<exists>e. syncExecuteStrategies failing_decorators (\<lambda>_. readme_state) = Inl e \<and>
      onChange failing_decorators readme_state = Inl e \<and>
      runNextTimer failing_decorators
        (\<lparr>hostEditorState = overridden_state, timers = []\<rparr>
           \<lparr>timers := ExecuteStrategiesTask readme_state # []\<rparr>)
        = Some (Some e, \<lparr>hostEditorState = overridden_state, timers = []\<rparr>\<lparr>timers := []\<rparr>))"
  using matcher_error_atomic [where ds = failing_decorators and st = readme_state
      and h = "\<lparr>hostEditorState = overridden_state, timers = []\<rparr>" and rest = "[]"]
    readme_failing_throws
  by simp

subsection \<open>What the pass returns\<close>

lemma readme_pass: "syncExecuteStrategies readme_decorators get_readme_state = Inr (Some readme_styled_state)"
  by code_simp

lemma readme_pass_count: "changesApplied_of readme_decorators (get_readme_state ()) = Inr 2"
  by code_simp

lemma readme_second_pass_count: "changesApplied_of readme_decorators readme_styled_state = Inr 0"
  by code_simp

lemma quiet_pass_count: "changesApplied_of quiet_decorators (get_overridden_state ()) = Inr 0"
  by code_simp

text \<open>
  C2, as the specification states it, fails: a pass that applied no change does not
  return nothing. With a matcher that reports no range the counter is 0 and the driver
  returns an editor state.
\<close>

theorem noop_returns_nothing_counterexample:
  "changesApplied_of quiet_decorators (get_overridden_state ()) = Inr 0 \<and>
   syncExecuteStrategies quiet_decorators get_overridden_state \<noteq> Inr None"
  by code_simp

text \<open>
  C2, amended. When the pass ends with \<open>changesApplied = 0\<close>, the driver returns the
  editor state it was given, itself: not nothing, and not a new state.
\<close>

theorem noop_returns_input_state:
  "changesApplied_of ds (g ()) = Inr 0 \<Longrightarrow> syncExecuteStrategies ds g = Inr (Some (g ()))"
  by (auto simp: changesApplied_of_def syncExecuteStrategies_def applyChangesToState_def Let_def
      split: sum.splits prod.splits)

theorem noop_returns_input_state_witness:
  "changesApplied_of quiet_decorators (get_overridden_state ()) = Inr 0 \<and>
   syncExecuteStrategies quiet_decorators get_overridden_state = Inr (Some (get_overridden_state ()))"
  using noop_returns_input_state [of quiet_decorators get_overridden_state] quiet_pass_count
  by simp

text \<open>
  C8, as the specification states it, fails: when no change was applied, the state the
  driver returns still carries the pending override.
\<close>

theorem override_always_reset_counterexample:
  "syncExecuteStrategies quiet_decorators get_overridden_state = Inr (Some overridden_state) \<and>
   getInlineStyleOverride overridden_state = Some [''BOLD'']"
  by code_simp

text \<open>
  C8, amended. The state the driver returns after a pass that applied a change has its
  override reset to empty, and so has every state \<open>onChange\<close> returns, whether or not
  a change was applied. After a pass that applied no change, the driver returns its
  input state, with the override as it was.
\<close>

theorem override_reset:
  "(syncExecuteStrategies ds g = Inr (Some st') \<and> changesApplied_of ds (g ()) \<noteq> Inr 0
      \<longrightarrow> getInlineStyleOverride st' = Some []) \<and>
   (onChange ds st = Inr st'' \<longrightarrow> getInlineStyleOverride st'' = Some []) \<and>
   (changesApplied_of ds (g ()) = Inr 0
      \<longrightarrow> (\<exists>st0. syncExecuteStrategies ds g = Inr (Some st0) \<and> st0 = g () \<and>
                 getInlineStyleOverride st0 = getInlineStyleOverride (g ())))"
proof (intro conjI)
  show "syncExecuteStrategies ds g = Inr (Some st') \<and> changesApplied_of ds (g ()) \<noteq> Inr 0
      \<longrightarrow> getInlineStyleOverride st' = Some []"
    by (auto simp: changesApplied_of_def syncExecuteStrategies_def applyChangesToState_def Let_def
        resetStateToUnstyled_def setInlineStyleOverride_def
        split: sum.splits prod.splits if_splits)
  show "onChange ds st = Inr st'' \<longrightarrow> getInlineStyleOverride st'' = Some []"
    by (auto simp: onChange_def setInlineStyleOverride_def split: sum.splits)
  show "changesApplied_of ds (g ()) = Inr 0
      \<longrightarrow> (\<exists>st0. syncExecuteStrategies ds g = Inr (Some st0) \<and> st0 = g () \<and>
                 getInlineStyleOverride st0 = getInlineStyleOverride (g ()))"
    by (auto simp: changesApplied_of_def syncExecuteStrategies_def applyChangesToState_def Let_def
        split: sum.splits prod.splits)
qed

lemma quiet_onChange:
  "onChange quiet_decorators overridden_state
     = Inr (state_of_blocks [unstyled_block ''a'' ''abc''] (Some []))"
  by code_simp

lemma overridden_state_override:
  "getInlineStyleOverride (get_overridden_state ()) = Some [''BOLD'']"
  by code_simp

theorem override_reset_witness:
  "syncExecuteStrategies readme_decorators get_readme_state = Inr (Some readme_styled_state) \<and>
   changesApplied_of readme_decorators (get_readme_state ()) \<noteq> Inr 0 \<and>
   getInlineStyleOverride readme_styled_state = Some [] \<and>
   onChange quiet_decorators overridden_state
     = Inr (state_of_blocks [unstyled_block ''a'' ''abc''] (Some [])) \<and>
   getInlineStyleOverride (state_of_blocks [unstyled_block ''a'' ''abc''] (Some [])) = Some [] \<and>
   changesApplied_of quiet_decorators (get_overridden_state ()) = Inr 0 \<and>
   syncExecuteStrategies quiet_decorators get_overridden_state
     = Inr (Some (get_overridden_state ())) \<and>
   getInlineStyleOverride (get_overridden_state ()) = Some [''BOLD'']"
  using override_reset [where ds = readme_decorators and g = get_readme_state
      and st' = readme_styled_state]
    override_reset [where ds = quiet_decorators and st = overridden_state
      and st'' = "state_of_blocks [unstyled_block ''a'' ''abc''] (Some [])"
      and g = get_overridden_state]
    readme_pass readme_pass_count quiet_onChange quiet_pass_count overridden_state_override
  by simp

subsection \<open>Stripping\<close>

lemma find_key_middle:
  "getKey b \<notin> getKey ` set xs \<Longrightarrow>
   find (\<lambda>x. getKey x = getKey b) (xs @ b # ys) = Some b"
  by (induction xs) auto

lemma getBlockForKey_middle:
  "getBlockMap c = xs @ b # ys \<Longrightarrow> getKey b \<notin> getKey ` set xs \<Longrightarrow>
   getBlockForKey c (getKey b) = Some b"
  by (simp add: getBlockForKey_def find_key_middle)

lemma map_replace_absent:
  "k \<notin> getKey ` set xs \<Longrightarrow> map (\<lambda>x. if getKey x = k then nb else x) xs = xs"
  by (induction xs) auto

lemma map_replace_middle:
  "k \<notin> getKey ` set xs \<Longrightarrow> k \<notin> getKey ` set ys \<Longrightarrow> getKey b = k \<Longrightarrow>
   map (\<lambda>x. if getKey x = k then nb else x) (xs @ b # ys) = xs @ nb # ys"
  by (simp add: map_replace_absent)

lemma blockMap_set_middle:
  "getKey b \<notin> getKey ` set xs \<Longrightarrow> getKey b \<notin> getKey ` set ys \<Longrightarrow> getKey nb = getKey b \<Longrightarrow>
   blockMap_set (xs @ b # ys) nb = xs @ nb # ys"
  unfolding blockMap_set_def by (simp add: map_replace_absent)

lemma takeWhile_dropWhile_same [simp]: "takeWhile P (dropWhile P xs) = []"
  by (induction xs) auto

lemma removed_single:
  "concat (map (\<lambda>block. if getKey block = k then [m] else if getKey block \<in> set [k] then [] else [block]) bm)
   = map (\<lambda>x. if getKey x = k then m else x) bm"
  by (induction bm) auto

lemma slice_zero_zero [simp]: "slice xs 0 0 = []"
  by (simp add: slice_def resolveIndex_def)

lemma slice_from_length [simp]: "slice_from xs (int (length xs)) = []"
  by (simp add: slice_from_def resolveIndex_def)

lemma slice_Nil [simp]: "slice [] b e = []"
  by (simp add: slice_def)

lemma replaceText_whole_block:
  assumes bm: "getBlockMap c = xs @ b # ys"
    and kx: "getKey b \<notin> getKey ` set xs" and ky: "getKey b \<notin> getKey ` set ys"
    and wf: "wf_block b"
  shows "\<exists>c'. replaceText c
           ((createEmpty (getKey b))\<lparr>anchorOffset := 0, focusOffset := int (length (getText b))\<rparr>)
           (getText b) [] = Inr c' \<and> getBlockMap c' = xs @ unstyled b # ys"
proof (cases "getText b = []")
  case True
  with wf have "unstyled b = b" by (simp add: unstyled_def wf_block_def)
  with True bm getBlockForKey_middle [OF bm kx] show ?thesis
    by (simp add: replaceText_def removeEntitiesAtEdges_def removeRangeFromContentState_def
        insertTextIntoContentState_def createEmpty_def isCollapsed_def getStartKey_def getEndKey_def)
next
  case False
  let ?sel = "(createEmpty (getKey b))\<lparr>anchorOffset := 0, focusOffset := int (length (getText b))\<rparr>"
  let ?c1 = "c\<lparr>getSelectionAfter := ?sel\<rparr>"
  let ?m = "b\<lparr>getText := [], getCharacterList := []\<rparr>"
  let ?sel2 = "?sel\<lparr>anchorKey := getKey b, anchorOffset := 0, focusKey := getKey b, focusOffset := 0, isBackward := False\<rparr>"
  let ?c2 = "?c1\<lparr>getBlockMap := xs @ ?m # ys, getSelectionAfter := ?sel2\<rparr>"
  have e1: "removeEntitiesAtEdges c ?sel = Inr ?c1"
    using getBlockForKey_middle [OF bm kx]
    by (simp add: removeEntitiesAtEdges_def createEmpty_def getStartKey_def getEndKey_def)
  have g1: "getBlockForKey ?c1 (getKey b) = Some b"
    using getBlockForKey_middle [of ?c1 xs b ys] bm kx by simp
  have e2: "removeRangeFromContentState ?c1 ?sel = Inr ?c2"
    using False wf g1 bm kx ky
    by (simp add: removeRangeFromContentState_def createEmpty_def isCollapsed_def getStartKey_def
        getEndKey_def getStartOffset_def getEndOffset_def removeFromList_def wf_block_def
        removed_single map_replace_absent Let_def)
  have g2: "getBlockForKey ?c2 (getKey b) = Some ?m"
    using getBlockForKey_middle [of ?c2 xs ?m ys] kx by simp
  have e3: "insertTextIntoContentState ?c2 ?sel2 (getText b) \<lparr>getStyle = []\<rparr>
      = Inr (?c2\<lparr>getBlockMap := xs @ unstyled b # ys,
                getSelectionAfter := ?sel2\<lparr>anchorOffset := int (length (getText b)),
                  focusOffset := int (length (getText b))\<rparr>\<rparr>)"
    using False g2 kx ky
    by (simp add: insertTextIntoContentState_def isCollapsed_def getStartKey_def
        getStartOffset_def createEmpty_def insertIntoList_def unstyled_def Let_def
        blockMap_set_middle [where b = ?m])
  show ?thesis
    using e3 by (simp add: replaceText_def e1 e2)
qed

lemma stripStyles_reduce_blocks:
  assumes "getBlockMap c = map unstyled pre @ bs"
    and "distinct (map getKey (pre @ bs))" and "list_all wf_block bs"
  shows "\<exists>c'. stripStyles_reduce bs c = Inr c' \<and> getBlockMap c' = map unstyled (pre @ bs)"
  using assms
proof (induction bs arbitrary: pre c)
  case Nil
  then show ?case by simp
next
  case (Cons b bs)
  have keys: "getKey \<circ> unstyled = getKey" by (auto simp: unstyled_def)
  from Cons.prems have kx: "getKey b \<notin> getKey ` set (map unstyled pre)"
    and ky: "getKey b \<notin> getKey ` set bs" and wf: "wf_block b"
    by (auto simp: unstyled_def image_iff)
  from replaceText_whole_block [OF Cons.prems(1) kx ky wf] obtain c1 where
    c1: "replaceText c ((createEmpty (getKey b))\<lparr>anchorOffset := 0, focusOffset := int (length (getText b))\<rparr>)
           (getText b) [] = Inr c1" "getBlockMap c1 = map unstyled pre @ unstyled b # bs"
    by blast
  from c1(2) have "getBlockMap c1 = map unstyled (pre @ [b]) @ bs" by simp
  from Cons.IH [OF this] Cons.prems obtain c' where
    "stripStyles_reduce bs c1 = Inr c'" "getBlockMap c' = map unstyled ((pre @ [b]) @ bs)"
    by auto
  with c1(1) show ?case by (simp add: Let_def)
qed

lemma getCurrentContent_push [simp]: "getCurrentContent (push st c t) = c"
  by (simp add: push_def)

lemma stripStyles_result:
  assumes "wf_content (getCurrentContent (hostEditorState h))"
  shows "\<exists>st'. stripStyles h afterwards = Inr (afterwards st' h) \<and>
           getSelection st' = getSelection (hostEditorState h) \<and>
           getBlockMap (getCurrentContent st')
             = map unstyled (getBlockMap (getCurrentContent (hostEditorState h)))"
proof -
  let ?c = "getCurrentContent (hostEditorState h)"
  from assms have "getBlockMap ?c = map unstyled [] @ getBlockMap ?c"
    "distinct (map getKey ([] @ getBlockMap ?c))" "list_all wf_block (getBlockMap ?c)"
    by (simp_all add: wf_content_def)
  from stripStyles_reduce_blocks [OF this] obtain c' where
    "stripStyles_reduce (getBlockMap ?c) ?c = Inr c'" "getBlockMap c' = map unstyled (getBlockMap ?c)"
    by auto
  then show ?thesis
    by (intro exI [of _ "acceptSelection (push (hostEditorState h) c' None)
          (getSelection (hostEditorState h))"])
       (simp add: stripStyles_def Let_def acceptSelection_def)
qed

lemma styled_host_wf: "wf_content (getCurrentContent (hostEditorState styled_host))"
  by code_simp

text \<open>
  C5. On a well-formed document the strip never fails, and the editor state it hands to
  the continuation has the blocks of the current document, in order, each with its key
  and its text unchanged and with the empty style on every character; the selection is
  the current one.
\<close>

theorem strip_empties_every_style:
  assumes "wf_content (getCurrentContent (hostEditorState h))"
  shows "\<exists>st'. stripStyles h afterwards = Inr (afterwards st' h) \<and>
           getSelection st' = getSelection (hostEditorState h) \<and>
           map getKey (getBlockMap (getCurrentContent st'))
             = map getKey (getBlockMap (getCurrentContent (hostEditorState h))) \<and>
           map getText (getBlockMap (getCurrentContent st'))
             = map getText (getBlockMap (getCurrentContent (hostEditorState h))) \<and>
           (\<forall>block \<in> set (getBlockMap (getCurrentContent st')).
              length (getCharacterList block) = length (getText block) \<and>
              (\<forall>character \<in> set (getCharacterList block). getStyle character = []))"
proof -
  from stripStyles_result [OF assms, of afterwards] obtain st' where
    st': "stripStyles h afterwards = Inr (afterwards st' h)"
      "getSelection st' = getSelection (hostEditorState h)"
      "getBlockMap (getCurrentContent st')
         = map unstyled (getBlockMap (getCurrentContent (hostEditorState h)))"
    by blast
  have "map getKey (map unstyled bs) = map getKey bs"
    and "map getText (map unstyled bs) = map getText bs" for bs
    by (simp_all add: unstyled_def)
  with st' show ?thesis
    by (intro exI [of _ st']) (auto simp: unstyled_def)
qed

theorem strip_empties_every_style_witness:
  "wf_content (getCurrentContent (hostEditorState styled_host)) \<and>
   (\<exists>st'. stripStyles styled_host (executeStrategies readme_decorators)
             = Inr (executeStrategies readme_decorators st' styled_host) \<and>
           getSelection st' = getSelection (hostEditorState styled_host) \<and>
           map getKey (getBlockMap (getCurrentContent st'))
             = map getKey (getBlockMap (getCurrentContent (hostEditorState styled_host))) \<and>
           map getText (getBlockMap (getCurrentContent st'))
             = map getText (getBlockMap (getCurrentContent (hostEditorState styled_host))) \<and>
           (\<forall>block \<in> set (getBlockMap (getCurrentContent st')).
              length (getCharacterList block) = length (getText block) \<and>
              (\<forall>character \<in> set (getCharacterList block). getStyle character = [])))"
  using strip_empties_every_style [OF styled_host_wf, of "executeStrategies readme_decorators"]
    styled_host_wf
  by simp

subsection \<open>The return key\<close>

text \<open>
  C4, as the specification states it, fails: on a document whose selection carries no
  inline style the return hook queues nothing, so no continuation ever fires and no pass
  follows the keystroke.
\<close>

theorem return_always_reconciles_counterexample:
  "handleReturn readme_decorators plain_host = Inr plain_host \<and>
   timers plain_host = [] \<and>
   runNextTimer readme_decorators plain_host = None"
  by code_simp

text \<open>
  C4, amended. The return hook always runs the guard. When the current inline style at
  the forced selection is not empty, the hook queues the strip; when it is empty, the
  hook queues nothing and leaves the host as it is. The strip, run on a well-formed
  document, queues the pass on the state it produced: the state that has the host's
  current selection and the host's current blocks, each with the empty style on every
  character.
\<close>

theorem handleReturn_guard:
  assumes "getCurrentInlineStyle
             (forceSelection (hostEditorState h) (getSelection (hostEditorState h))) = Inr s"
  shows "handleReturn ds h = Inr (if s = [] then h else h\<lparr>timers := timers h @ [StripStylesTask]\<rparr>) \<and>
         (wf_content (getCurrentContent (hostEditorState h')) \<longrightarrow>
            (\<exists>st'. runTask ds StripStylesTask h'
                     = Inr (h'\<lparr>timers := timers h' @ [ExecuteStrategiesTask st']\<rparr>) \<and>
                   getSelection st' = getSelection (hostEditorState h') \<and>
                   getBlockMap (getCurrentContent st')
                     = map unstyled (getBlockMap (getCurrentContent (hostEditorState h')))))"
proof -
  have "handleReturn ds h = Inr (if s = [] then h else h\<lparr>timers := timers h @ [StripStylesTask]\<rparr>)"
    using assms by (simp add: handleReturn_def checkIfWeNeedToStripStyles_def Let_def)
  moreover have "\<exists>st'. runTask ds StripStylesTask h'
                     = Inr (h'\<lparr>timers := timers h' @ [ExecuteStrategiesTask st']\<rparr>) \<and>
                   getSelection st' = getSelection (hostEditorState h') \<and>
                   getBlockMap (getCurrentContent st')
                     = map unstyled (getBlockMap (getCurrentContent (hostEditorState h')))"
    if "wf_content (getCurrentContent (hostEditorState h'))"
  proof -
    from stripStyles_result [OF that, of "executeStrategies ds"] obtain st' where
      "stripStyles h' (executeStrategies ds) = Inr (executeStrategies ds st' h')"
      "getSelection st' = getSelection (hostEditorState h')"
      "getBlockMap (getCurrentContent st')
         = map unstyled (getBlockMap (getCurrentContent (hostEditorState h')))"
      by blast
    then show ?thesis
      by (intro exI [of _ st']) (simp add: runTask_def executeStrategies_def)
  qed
  ultimately show ?thesis by blast
qed

lemma styled_host_current_style:
  "getCurrentInlineStyle
     (forceSelection (hostEditorState styled_host) (getSelection (hostEditorState styled_host)))
   = Inr [''BOLD'']"
  by code_simp

theorem handleReturn_guard_witness:
  "getCurrentInlineStyle
     (forceSelection (hostEditorState styled_host) (getSelection (hostEditorState styled_host)))
     = Inr [''BOLD''] \<and>
   handleReturn readme_decorators styled_host
     = Inr (styled_host\<lparr>timers := timers styled_host @ [StripStylesTask]\<rparr>) \<and>
   wf_content (getCurrentContent (hostEditorState styled_host)) \<and>
   (\<exists>st'. runTask readme_decorators StripStylesTask styled_host
            = Inr (styled_host\<lparr>timers := timers styled_host @ [ExecuteStrategiesTask st']\<rparr>) \<and>
          getSelection st' = getSelection (hostEditorState styled_host) \<and>
          getBlockMap (getCurrentContent st')
            = map unstyled (getBlockMap (getCurrentContent (hostEditorState styled_host))))"
  using handleReturn_guard [OF styled_host_current_style, of readme_decorators styled_host]
    styled_host_current_style styled_host_wf
  by simp

subsection \<open>The style reconciler, block by block\<close>

lemma length_restyle [simp]: "length (restyle P f chars) = length chars"
  by (simp add: restyle_def)

lemma nth_restyle:
  "i < length chars \<Longrightarrow>
   restyle P f chars ! i = (if P i then (chars ! i)\<lparr>getStyle := f (getStyle (chars ! i))\<rparr> else chars ! i)"
  by (simp add: restyle_def nth_enumerate_eq)

lemma restyle_none: "(\<And>i. i < length chars \<Longrightarrow> \<not> P i) \<Longrightarrow> restyle P f chars = chars"
  by (simp add: list_eq_iff_nth_eq nth_restyle)

lemma restyle_id: "(\<And>s. f s = s) \<Longrightarrow> restyle P f chars = chars"
  by (simp add: list_eq_iff_nth_eq nth_restyle)

lemma restyle_restyle: "restyle P g (restyle P f chars) = restyle P (g \<circ> f) chars"
  by (simp add: list_eq_iff_nth_eq nth_restyle)

lemma applyStyleToRange_restyle:
  "0 \<le> a \<Longrightarrow> b \<le> int (length chars) \<Longrightarrow>
   applyStyleToRange chars st a b
     = Inr (restyle (\<lambda>i. a \<le> int i \<and> int i < b) (\<lambda>s. ordered_set_add s st) chars)"
proof (induction chars st a b rule: applyStyleToRange.induct)
  case (1 chars st a b)
  show ?case
  proof (cases "a < b")
    case False
    then have "restyle (\<lambda>i. a \<le> int i \<and> int i < b) (\<lambda>s. ordered_set_add s st) chars = chars"
      by (intro restyle_none) auto
    with False show ?thesis by (simp add: applyStyleToRange.simps [of chars st a b])
  next
    case True
    with 1 have ia: "nat a < length chars" by auto
    with 1 have get: "list_get chars a = Some (chars ! nat a)"
      by (simp add: list_get_def wrapIndex_def)
    let ?chars = "list_set chars a (applyStyle (chars ! nat a) st)"
    have len: "length ?chars = length chars" by (simp add: list_set_def)
    from "1.IH" [OF True get] "1.prems" len
    have ih: "applyStyleToRange ?chars st (a + 1) b
        = Inr (restyle (\<lambda>i. a + 1 \<le> int i \<and> int i < b) (\<lambda>s. ordered_set_add s st) ?chars)"
      by simp
    have "restyle (\<lambda>i. a + 1 \<le> int i \<and> int i < b) (\<lambda>s. ordered_set_add s st) ?chars
        = restyle (\<lambda>i. a \<le> int i \<and> int i < b) (\<lambda>s. ordered_set_add s st) chars"
      using "1.prems" True ia
      by (auto simp: list_eq_iff_nth_eq nth_restyle list_set_def wrapIndex_def applyStyle_def
          nth_list_update)
    with ih True get show ?thesis
      by (simp add: applyStyleToRange.simps [of chars st a b])
  qed
qed

lemma getKey_style_block [simp]: "getKey (style_block k a f g b) = getKey b"
  by (simp add: style_block_def)

lemma getText_style_block [simp]: "getText (style_block k a f g b) = getText b"
  by (simp add: style_block_def)

lemma length_chars_style_block [simp]:
  "length (getCharacterList (style_block k a f g b)) = length (getCharacterList b)"
  by (simp add: style_block_def)

lemma style_block_id: "(\<And>s. g s = s) \<Longrightarrow> style_block k a f g b = b"
  by (simp add: style_block_def restyle_id)

lemma style_block_comp:
  "style_block k a f g2 (style_block k a f g1 b) = style_block k a f (g2 \<circ> g1) b"
  by (simp add: style_block_def restyle_restyle)

lemma find_Some_key: "find (\<lambda>x. getKey x = k) bm = Some b \<Longrightarrow> b \<in> set bm \<and> getKey b = k"
  by (induction bm) (auto split: if_splits)

lemma find_None_key: "find (\<lambda>x. getKey x = k) bm = None \<longleftrightarrow> k \<notin> getKey ` set bm"
  by (induction bm) auto

lemma distinct_key_unique:
  "distinct (map getKey bm) \<Longrightarrow> x \<in> set bm \<Longrightarrow> y \<in> set bm \<Longrightarrow> getKey x = getKey y \<Longrightarrow> x = y"
  by (auto simp: distinct_map dest: inj_onD)

lemma find_map_key:
  "(\<And>x. getKey (F x) = getKey x) \<Longrightarrow>
   find (\<lambda>x. getKey x = k) (map F bm) = map_option F (find (\<lambda>x. getKey x = k) bm)"
  by (induction bm) auto

lemma replace_by_key_eq_map:
  assumes "distinct (map getKey bm)" and "b \<in> set bm" and "getKey b = k"
  shows "map (\<lambda>x. if getKey x = k then F b else x) bm = map (\<lambda>x. if getKey x = k then F x else x) bm"
  using assms by (auto dest: distinct_key_unique)

lemma applyInlineStyle_single:
  assumes d: "distinct (map getKey (getBlockMap c))"
    and g: "getBlockForKey c k = Some b"
    and sk: "getStartKey sel = k" and ek: "getEndKey sel = k"
    and a: "0 \<le> getStartOffset sel" and f: "getEndOffset sel \<le> int (length (getCharacterList b))"
  shows "applyInlineStyle c sel st
     = Inr (c\<lparr>getBlockMap := map (style_block k (getStartOffset sel) (getEndOffset sel)
                                    (\<lambda>s. ordered_set_add s st)) (getBlockMap c),
              getSelectionAfter := sel\<rparr>)"
proof -
  let ?nb = "b\<lparr>getCharacterList := restyle (\<lambda>i. getStartOffset sel \<le> int i \<and> int i < getEndOffset sel)
      (\<lambda>s. ordered_set_add s st) (getCharacterList b)\<rparr>"
  from g have b: "b \<in> set (getBlockMap c)" "getKey b = k"
    by (auto simp: getBlockForKey_def dest: find_Some_key)
  have blk: "applyStyleToBlock sel st b = Inr ?nb"
    using sk ek a f by (simp add: applyStyleToBlock_def applyStyleToRange_restyle)
  have "blockMap_merge (getBlockMap c) [?nb]
      = map (\<lambda>x. if getKey x = k then ?nb else x) (getBlockMap c)"
    using b by (auto simp: blockMap_merge_def blockMap_set_def)
  also have "\<dots> = map (style_block k (getStartOffset sel) (getEndOffset sel)
                                    (\<lambda>s. ordered_set_add s st)) (getBlockMap c)"
    using d b by (auto simp: style_block_def dest: distinct_key_unique)
  finally show ?thesis
    using g sk ek blk by (simp add: applyInlineStyle_def)
qed

lemma getBlockForKey_map:
  "(\<And>x. getKey (F x) = getKey x) \<Longrightarrow>
   getBlockForKey (c\<lparr>getBlockMap := map F (getBlockMap c), getSelectionAfter := sa\<rparr>) k
     = map_option F (getBlockForKey c k)"
  by (simp add: getBlockForKey_def find_map_key)

lemma map_getKey_style_block [simp]:
  "map (getKey \<circ> style_block k a f g) bm = map getKey bm"
  by simp

lemma applyInlineStyles_reduce_single:
  assumes "distinct (map getKey (getBlockMap acc))"
    and "getBlockForKey acc k = Some b"
    and "getStartKey sel = k" and "getEndKey sel = k"
    and "0 \<le> getStartOffset sel" and "getEndOffset sel \<le> int (length (getCharacterList b))"
    and "getBlockForKey content k = Some b0"
  shows "applyInlineStyles_reduce content sel styles rest (acc, n)
     = Inr (acc\<lparr>getBlockMap := map (style_block k (getStartOffset sel) (getEndOffset sel)
                                    (\<lambda>s. foldl ordered_set_add s rest)) (getBlockMap acc),
               getSelectionAfter := (if rest = [] then getSelectionAfter acc else sel)\<rparr>,
            n + (if needToChange b0 sel styles then length rest else 0))"
  using assms
proof (induction rest arbitrary: acc b n)
  case Nil
  then show ?case by (simp add: style_block_id)
next
  case (Cons st rest)
  let ?F = "style_block k (getStartOffset sel) (getEndOffset sel) (\<lambda>s. ordered_set_add s st)"
  let ?acc1 = "acc\<lparr>getBlockMap := map ?F (getBlockMap acc), getSelectionAfter := sel\<rparr>"
  let ?n1 = "if needToChange b0 sel styles then n + 1 else n"
  have step: "applyInlineStyle acc sel st = Inr ?acc1"
    using Cons.prems by (intro applyInlineStyle_single) auto
  have d1: "distinct (map getKey (getBlockMap ?acc1))"
    using Cons.prems(1) by simp
  have g1: "getBlockForKey ?acc1 k = Some (?F b)"
    using Cons.prems(2) by (simp add: getBlockForKey_map)
  have l1: "getEndOffset sel \<le> int (length (getCharacterList (?F b)))"
    using Cons.prems(6) by simp
  from Cons.IH [OF d1 g1 Cons.prems(3,4,5) l1 Cons.prems(7), of ?n1]
  have ih: "applyInlineStyles_reduce content sel styles rest (?acc1, ?n1)
     = Inr (?acc1\<lparr>getBlockMap := map (style_block k (getStartOffset sel) (getEndOffset sel)
                                    (\<lambda>s. foldl ordered_set_add s rest)) (getBlockMap ?acc1),
               getSelectionAfter := (if rest = [] then getSelectionAfter ?acc1 else sel)\<rparr>,
            ?n1 + (if needToChange b0 sel styles then length rest else 0))" .
  have comp: "(\<lambda>s. foldl ordered_set_add s rest) \<circ> (\<lambda>s. ordered_set_add s st)
      = (\<lambda>s. foldl ordered_set_add s (st # rest))"
    by (simp add: fun_eq_iff)
  have unfold: "applyInlineStyles_reduce content sel styles (st # rest) (acc, n)
      = applyInlineStyles_reduce content sel styles rest (?acc1, ?n1)"
    using Cons.prems(3,7) step by (simp add: Let_def needToChange_def)
  show ?case
    unfolding unfold ih
    by (cases "needToChange b0 sel styles") (simp_all add: style_block_comp o_def)
qed

lemma getKey_apply_change [simp]: "getKey (apply_change ch b) = getKey b"
  by (simp add: apply_change_def)

lemma getText_apply_change [simp]: "getText (apply_change ch b) = getText b"
  by (simp add: apply_change_def)

lemma length_chars_apply_change [simp]:
  "length (getCharacterList (apply_change ch b)) = length (getCharacterList b)"
  by (simp add: apply_change_def)

lemma wf_block_apply_change [simp]: "wf_block (apply_change ch b) = wf_block b"
  by (simp add: wf_block_def)

lemma wf_content_apply_change:
  "wf_content c \<Longrightarrow>
   wf_content (c\<lparr>getBlockMap := map (apply_change ch) (getBlockMap c), getSelectionAfter := sa\<rparr>)"
  by (simp add: wf_content_def list_all_iff o_def)

lemma limitSelection_fields [simp]:
  "getStartKey (limitSelection (createSelectionForChange ch) b) = change_blockKey ch"
  "getEndKey (limitSelection (createSelectionForChange ch) b) = change_blockKey ch"
  "getStartOffset (limitSelection (createSelectionForChange ch) b) = max (change_start ch) 0"
  "getEndOffset (limitSelection (createSelectionForChange ch) b)
     = min (int (length (getText b))) (change_end ch)"
  by (simp_all add: limitSelection_def createSelectionForChange_def createEmpty_def
      getStartKey_def getEndKey_def getStartOffset_def getEndOffset_def)

lemma applyInlineStyles_change:
  assumes wf: "wf_content c" and g: "getBlockForKey c (change_blockKey ch) = Some b"
  shows "applyInlineStyles c (limitSelection (createSelectionForChange ch) b) (change_styles ch) n
     = Inr (c\<lparr>getBlockMap := map (apply_change ch) (getBlockMap c),
              getSelectionAfter :=
                (if change_styles ch = [] then getSelectionAfter c
                 else limitSelection (createSelectionForChange ch) b)\<rparr>,
            n + (if change_needed ch (getBlockMap c) then length (change_styles ch) else 0))"
proof -
  let ?sel = "limitSelection (createSelectionForChange ch) b"
  from wf have d: "distinct (map getKey (getBlockMap c))" by (simp add: wf_content_def)
  from g have b: "b \<in> set (getBlockMap c)" "getKey b = change_blockKey ch"
    by (auto simp: getBlockForKey_def dest: find_Some_key)
  with wf have wb: "length (getCharacterList b) = length (getText b)"
    by (auto simp: wf_content_def list_all_iff wf_block_def)
  have "map (style_block (change_blockKey ch) (getStartOffset ?sel) (getEndOffset ?sel)
          (\<lambda>s. foldl ordered_set_add s (change_styles ch))) (getBlockMap c)
      = map (apply_change ch) (getBlockMap c)"
    using d b by (auto simp: apply_change_def style_block_def add_styles_def dest: distinct_key_unique)
  moreover have "change_needed ch (getBlockMap c) = needToChange b ?sel (change_styles ch)"
    using g by (simp add: change_needed_def getBlockForKey_def)
  ultimately show ?thesis
    unfolding applyInlineStyles_def
    using applyInlineStyles_reduce_single [OF d g _ _ _ _ g, of ?sel "change_styles ch" "change_styles ch" n]
      wb
    by simp
qed

lemma applyChanges_reduce_blocks:
  assumes "wf_content c"
    and "\<forall>ch \<in> set changes. change_blockKey ch \<in> getKey ` set (getBlockMap c)"
  shows "\<exists>c'. applyChanges_reduce changes (c, n)
           = Inr (c', n + count_changes changes (getBlockMap c)) \<and>
         getBlockMap c' = apply_changes changes (getBlockMap c)"
  using assms
proof (induction changes arbitrary: c n)
  case Nil
  then show ?case by simp
next
  case (Cons ch changes)
  from Cons.prems(2) obtain b where g: "getBlockForKey c (change_blockKey ch) = Some b"
    by (cases "getBlockForKey c (change_blockKey ch)")
       (auto simp: getBlockForKey_def find_None_key)
  let ?c1 = "c\<lparr>getBlockMap := map (apply_change ch) (getBlockMap c),
              getSelectionAfter :=
                (if change_styles ch = [] then getSelectionAfter c
                 else limitSelection (createSelectionForChange ch) b)\<rparr>"
  let ?n1 = "n + (if change_needed ch (getBlockMap c) then length (change_styles ch) else 0)"
  have wf1: "wf_content ?c1" using Cons.prems(1) by (rule wf_content_apply_change)
  have keys1: "\<forall>ch \<in> set changes. change_blockKey ch \<in> getKey ` set (getBlockMap ?c1)"
    using Cons.prems(2) by (simp add: image_image)
  from Cons.IH [OF wf1 keys1, of ?n1] obtain c' where
    "applyChanges_reduce changes (?c1, ?n1)
       = Inr (c', ?n1 + count_changes changes (getBlockMap ?c1))"
    "getBlockMap c' = apply_changes changes (getBlockMap ?c1)"
    by blast
  then show ?case
    using g applyInlineStyles_change [OF Cons.prems(1) g, of n]
    by (simp add: add.assoc)
qed

subsection \<open>Clamping\<close>

lemma keys_present_all_changes: "keys_present (all_changes ds bs) bs"
  by (auto simp: keys_present_def all_changes_def changes_of_decorator_def changes_in_block_def
      cb_def)

lemma never_throws_collect:
  "never_throws ds (getBlockMap (getCurrentContent st)) \<Longrightarrow>
   collect_changes ds st [] = Inr (all_changes ds (getBlockMap (getCurrentContent st)))"
  using collect_changes_ok [of ds st "[]"] by (simp add: never_throws_def)

lemma applyChanges_reduce_ok:
  assumes "wf_content c" and "keys_present changes (getBlockMap c)"
  shows "\<exists>c'. applyChanges_reduce changes (c, n)
           = Inr (c', n + count_changes changes (getBlockMap c)) \<and>
         getBlockMap c' = apply_changes changes (getBlockMap c)"
  using applyChanges_reduce_blocks [OF assms(1), of changes n] assms(2)
  by (simp add: keys_present_def)

text \<open>
  C3, as the specification states it, fails: the clamped range is not always within
  \<open>[0, length]\<close>. A change reported at \<open>(10, 20)\<close> on a block of three characters
  keeps its anchor at 10.
\<close>

theorem clamped_range_within_block_counterexample:
  "getStartOffset (limitSelection (createSelectionForChange far_change)
     (unstyled_block ''a'' ''abc'')) = 10 \<and>
   int (length (getText (unstyled_block ''a'' ''abc''))) = 3"
  by code_simp

text \<open>
  C3, amended. After clamping, the anchor is at least 0 and the focus at most the length
  of the block's text, so the offsets from anchor up to focus are characters of the
  block; both ends lie within \<open>[0, length]\<close> when the reported start is not beyond the
  text and the reported end is not negative. Whatever offsets the matchers report, a
  pass over a well-formed document raises no error: the reconciler returns, and so does
  the driver when no matcher throws.
\<close>

theorem clamping_keeps_pass_safe:
  "0 \<le> getStartOffset (limitSelection (createSelectionForChange ch) b) \<and>
   getEndOffset (limitSelection (createSelectionForChange ch) b) \<le> int (length (getText b)) \<and>
   (change_start ch \<le> int (length (getText b)) \<and> 0 \<le> change_end ch \<longrightarrow>
      getStartOffset (limitSelection (createSelectionForChange ch) b) \<le> int (length (getText b)) \<and>
      0 \<le> getEndOffset (limitSelection (createSelectionForChange ch) b)) \<and>
   (wf_content c \<and> keys_present changes (getBlockMap c) \<longrightarrow>
      (\<exists>r. applyChanges_reduce changes (c, n) = Inr r)) \<and>
   (wf_content (getCurrentContent (g ())) \<and>
    never_throws ds (getBlockMap (getCurrentContent (g ()))) \<longrightarrow>
      (\<exists>st'. syncExecuteStrategies ds g = Inr (Some st')))"
proof -
  have a: "wf_content c \<and> keys_present changes (getBlockMap c) \<longrightarrow>
      (\<exists>r. applyChanges_reduce changes (c, n) = Inr r)"
    using applyChanges_reduce_ok [of c changes n] by blast
  have b: "\<exists>st'. syncExecuteStrategies ds g = Inr (Some st')"
    if wf: "wf_content (getCurrentContent (g ()))"
      and nt: "never_throws ds (getBlockMap (getCurrentContent (g ())))"
  proof -
    let ?bs = "getBlockMap (getCurrentContent (g ()))"
    from applyChanges_reduce_ok [OF wf keys_present_all_changes, of ds 0]
    obtain c' where "applyChanges_reduce (all_changes ds ?bs) (getCurrentContent (g ()), 0)
        = Inr (c', 0 + count_changes (all_changes ds ?bs) ?bs)" by blast
    with never_throws_collect [OF nt] show ?thesis
      by (simp add: syncExecuteStrategies_def applyChangesToState_def Let_def)
  qed
  show ?thesis using a b by simp
qed

lemma readme_state_wf: "wf_content (getCurrentContent (get_readme_state ()))" by code_simp
lemma wild_never_throws: "never_throws wild_decorators (getBlockMap (getCurrentContent (get_readme_state ())))" by code_simp
lemma far_wide_keys_present: "keys_present [far_change, wide_change] (getBlockMap (getCurrentContent (get_readme_state ())))" by code_simp
lemma wide_change_offsets: "change_start wide_change \<le> int (length (getText (unstyled_block ''a'' ''abc''))) \<and> 0 \<le> change_end wide_change" by code_simp


theorem clamping_keeps_pass_safe_witness:
  "change_start wide_change \<le> int (length (getText (unstyled_block ''a'' ''abc''))) \<and>
   0 \<le> change_end wide_change \<and>
   getStartOffset (limitSelection (createSelectionForChange wide_change) (unstyled_block ''a'' ''abc''))
     \<le> int (length (getText (unstyled_block ''a'' ''abc''))) \<and>
   0 \<le> getEndOffset (limitSelection (createSelectionForChange wide_change) (unstyled_block ''a'' ''abc'')) \<and>
   wf_content (getCurrentContent (get_readme_state ())) \<and>
   keys_present [far_change, wide_change] (getBlockMap (getCurrentContent (get_readme_state ()))) \<and>
   (\<exists>r. applyChanges_reduce [far_change, wide_change] (getCurrentContent (get_readme_state ()), 0) = Inr r) \<and>
   never_throws wild_decorators (getBlockMap (getCurrentContent (get_readme_state ()))) \<and>
   (\<exists>st'. syncExecuteStrategies wild_decorators get_readme_state = Inr (Some st'))"
  using clamping_keeps_pass_safe [where ch = wide_change and b = "unstyled_block ''a'' ''abc''"
      and c = "getCurrentContent (get_readme_state ())" and changes = "[far_change, wide_change]"
      and n = 0 and ds = wild_decorators and g = get_readme_state]
    readme_state_wf wild_never_throws far_wide_keys_present wide_change_offsets
  by simp

subsection \<open>What a pass leaves in each block\<close>

lemma set_ordered_set_add [simp]: "set (ordered_set_add s x) = insert x (set s)"
  by (auto simp: ordered_set_add_def)

lemma set_add_styles [simp]: "set (add_styles s styles) = set s \<union> set styles"
  unfolding add_styles_def by (induction styles arbitrary: s) auto

lemma add_styles_present: "set styles \<subseteq> set s \<Longrightarrow> add_styles s styles = s"
  unfolding add_styles_def by (induction styles arbitrary: s) (auto simp: ordered_set_add_def)

lemma add_styles_Nil [simp]: "add_styles s [] = s"
  by (simp add: add_styles_def)

lemma add_styles_distinct: "distinct styles \<Longrightarrow> add_styles [] styles = styles"
proof -
  have "distinct (s @ styles) \<Longrightarrow> add_styles s styles = s @ styles" for s
    unfolding add_styles_def
    by (induction styles arbitrary: s) (auto simp: ordered_set_add_def)
  from this [of "[]"] show "distinct styles \<Longrightarrow> add_styles [] styles = styles" by simp
qed

lemma getStyle_apply_change:
  "i < length (getCharacterList b) \<Longrightarrow>
   getStyle (getCharacterList (apply_change ch b) ! i)
     = (if covers ch b i then add_styles (getStyle (getCharacterList b ! i)) (change_styles ch)
        else getStyle (getCharacterList b ! i))"
  by (auto simp: apply_change_def style_block_def nth_restyle covers_def)

lemma covers_apply_change [simp]: "covers ch (apply_change ch' b) i = covers ch b i"
  by (simp add: covers_def)

lemma slice_in_bounds:
  "0 \<le> a \<Longrightarrow> a \<le> f \<Longrightarrow> f \<le> int (length xs) \<Longrightarrow>
   slice xs a f = take (nat f - nat a) (drop (nat a) xs)"
  by (auto simp: slice_def resolveIndex_def Let_def min_def)

lemma slice_empty: "0 \<le> a \<Longrightarrow> 0 \<le> f \<Longrightarrow> f \<le> a \<Longrightarrow> slice xs a f = []"
  by (auto simp: slice_def resolveIndex_def Let_def min_def)

lemma uniform_slice_iff:
  assumes "0 \<le> a" "0 \<le> f" "f \<le> int (length xs)"
  shows "map getStyle (slice xs a f) = replicate (length (slice xs a f)) styles
     \<longleftrightarrow> (\<forall>i. a \<le> int i \<and> int i < f \<longrightarrow> getStyle (xs ! i) = styles)"
proof (cases "a \<le> f")
  case False
  with assms show ?thesis by (auto simp: slice_empty)
next
  case True
  let ?n = "nat f - nat a"
  from assms True have sl: "slice xs a f = take ?n (drop (nat a) xs)" by (simp add: slice_in_bounds)
  from assms True have len: "length (slice xs a f) = ?n" by (auto simp: sl)
  have "map getStyle (slice xs a f) = replicate (length (slice xs a f)) styles
     \<longleftrightarrow> (\<forall>j < ?n. getStyle (xs ! (nat a + j)) = styles)"
    using assms True by (auto simp: list_eq_iff_nth_eq len sl)
  also have "\<dots> \<longleftrightarrow> (\<forall>i. a \<le> int i \<and> int i < f \<longrightarrow> getStyle (xs ! i) = styles)"
  proof
    assume h: "\<forall>j < ?n. getStyle (xs ! (nat a + j)) = styles"
    show "\<forall>i. a \<le> int i \<and> int i < f \<longrightarrow> getStyle (xs ! i) = styles"
    proof (intro allI impI)
      fix i assume i: "a \<le> int i \<and> int i < f"
      with assms have "i - nat a < ?n" "nat a + (i - nat a) = i" by auto
      with h show "getStyle (xs ! i) = styles" by metis
    qed
  next
    assume h: "\<forall>i. a \<le> int i \<and> int i < f \<longrightarrow> getStyle (xs ! i) = styles"
    show "\<forall>j < ?n. getStyle (xs ! (nat a + j)) = styles"
    proof (intro allI impI)
      fix j assume "j < ?n"
      with assms have "a \<le> int (nat a + j) \<and> int (nat a + j) < f" by auto
      with h show "getStyle (xs ! (nat a + j)) = styles" by blast
    qed
  qed
  finally show ?thesis .
qed

lemma apply_change_other_key: "getKey b \<noteq> change_blockKey ch \<Longrightarrow> apply_change ch b = b"
  by (simp add: apply_change_def style_block_def)

lemma apply_change_no_styles: "change_styles ch = [] \<Longrightarrow> apply_change ch b = b"
  by (simp add: apply_change_def style_block_id)

lemma apply_change_noop:
  assumes wf: "wf_block b"
    and n: "\<not> needToChange b (limitSelection (createSelectionForChange ch) b) (change_styles ch)"
  shows "apply_change ch b = b"
proof -
  let ?a = "max (change_start ch) 0" and ?f = "min (int (length (getText b))) (change_end ch)"
  have "restyle (\<lambda>i. ?a \<le> int i \<and> int i < ?f) (\<lambda>s. add_styles s (change_styles ch))
          (getCharacterList b) = getCharacterList b"
  proof (cases "0 \<le> ?f")
    case False
    then show ?thesis by (intro restyle_none) auto
  next
    case True
    from wf have "?f \<le> int (length (getCharacterList b))" by (simp add: wf_block_def)
    from uniform_slice_iff [OF _ True this, of ?a "change_styles ch"] n
    have u: "\<forall>i. ?a \<le> int i \<and> int i < ?f \<longrightarrow> getStyle (getCharacterList b ! i) = change_styles ch"
      by (simp add: needToChange_def)
    show ?thesis
      by (simp add: list_eq_iff_nth_eq nth_restyle u add_styles_present)
  qed
  then show ?thesis by (simp add: apply_change_def style_block_def)
qed

lemma map_apply_change_noop:
  assumes d: "distinct (map getKey bm)" and wf: "list_all wf_block bm"
    and n: "\<not> change_needed ch bm"
  shows "map (apply_change ch) bm = bm"
proof (cases "find (\<lambda>block. getKey block = change_blockKey ch) bm")
  case None
  then have "\<forall>b \<in> set bm. getKey b \<noteq> change_blockKey ch"
    by (force simp: find_None_key)
  then show ?thesis by (simp add: map_idI apply_change_other_key)
next
  case (Some b)
  then have b: "b \<in> set bm" "getKey b = change_blockKey ch" by (auto dest: find_Some_key)
  from n Some have nb: "\<not> needToChange b (limitSelection (createSelectionForChange ch) b) (change_styles ch)"
    by (simp add: change_needed_def)
  have "apply_change ch x = x" if "x \<in> set bm" for x
  proof (cases "getKey x = change_blockKey ch")
    case True
    with d b that have "x = b" by (auto dest: distinct_key_unique)
    with wf b nb show ?thesis by (auto simp: list_all_iff intro: apply_change_noop)
  next
    case False
    then show ?thesis by (rule apply_change_other_key)
  qed
  then show ?thesis by (simp add: map_idI)
qed

lemma count_zero_noop:
  "distinct (map getKey bm) \<Longrightarrow> list_all wf_block bm \<Longrightarrow> count_changes chs bm = 0 \<Longrightarrow>
   apply_changes chs bm = bm"
proof (induction chs)
  case Nil
  then show ?case by simp
next
  case (Cons ch chs)
  from Cons.prems(3) have "\<not> change_needed ch bm \<or> change_styles ch = []" by (auto split: if_splits)
  then have "map (apply_change ch) bm = bm"
    using Cons.prems(1,2) by (auto simp: map_apply_change_noop apply_change_no_styles map_idI)
  with Cons show ?case by simp
qed

lemma block_after_Nil [simp]: "block_after [] b = b"
  by (simp add: block_after_def)

lemma block_after_Cons [simp]: "block_after (ch # chs) b = block_after chs (apply_change ch b)"
  by (simp add: block_after_def)

lemma apply_changes_map: "apply_changes chs bm = map (block_after chs) bm"
  by (induction chs arbitrary: bm) (simp_all add: o_def map_idI)

lemma getKey_block_after [simp]: "getKey (block_after chs b) = getKey b"
  unfolding block_after_def by (induction chs arbitrary: b) simp_all

lemma getText_block_after [simp]: "getText (block_after chs b) = getText b"
  unfolding block_after_def by (induction chs arbitrary: b) simp_all

lemma length_chars_block_after [simp]:
  "length (getCharacterList (block_after chs b)) = length (getCharacterList b)"
  unfolding block_after_def by (induction chs arbitrary: b) simp_all

lemma style_block_after:
  "i < length (getCharacterList b) \<Longrightarrow>
   set (getStyle (getCharacterList (block_after chs b) ! i))
     = set (getStyle (getCharacterList b ! i))
       \<union> \<Union> (set ` change_styles ` {ch \<in> set chs. covers ch b i})"
proof (induction chs arbitrary: b)
  case Nil
  then show ?case by (simp add: block_after_def)
next
  case (Cons ch chs)
  have "block_after (ch # chs) b = block_after chs (apply_change ch b)"
    by (simp add: block_after_def)
  with Cons.IH [of "apply_change ch b"] Cons.prems show ?case
    by (auto simp: getStyle_apply_change)
qed

lemma pass_blocks:
  assumes wf: "wf_content (getCurrentContent (g ()))"
    and nt: "never_throws ds (getBlockMap (getCurrentContent (g ())))"
  shows "\<exists>st'. syncExecuteStrategies ds g = Inr (Some st') \<and>
           getBlockMap (getCurrentContent st')
             = map (block_after (all_changes ds (getBlockMap (getCurrentContent (g ())))))
                 (getBlockMap (getCurrentContent (g ())))"
proof -
  let ?bm = "getBlockMap (getCurrentContent (g ()))"
  let ?chs = "all_changes ds ?bm"
  from applyChanges_reduce_ok [OF wf keys_present_all_changes, of ds 0]
  obtain c' where c': "applyChanges_reduce ?chs (getCurrentContent (g ()), 0)
        = Inr (c', count_changes ?chs ?bm)" "getBlockMap c' = apply_changes ?chs ?bm"
    by auto
  show ?thesis
  proof (cases "count_changes ?chs ?bm = 0")
    case True
    with wf have "apply_changes ?chs ?bm = ?bm"
      by (intro count_zero_noop) (simp_all add: wf_content_def)
    with True c' never_throws_collect [OF nt] show ?thesis
      by (simp add: syncExecuteStrategies_def applyChangesToState_def Let_def apply_changes_map)
  next
    case False
    with c' never_throws_collect [OF nt] show ?thesis
      by (simp add: syncExecuteStrategies_def applyChangesToState_def Let_def apply_changes_map
          resetStateToUnstyled_def setInlineStyleOverride_def acceptSelection_def)
  qed
qed

subsection \<open>Overlapping rules\<close>

lemma cb_in_all_changes:
  "d \<in> set ds \<Longrightarrow> b \<in> set bm \<Longrightarrow> r \<in> set (reported (decorator_strategy d b)) \<Longrightarrow>
   cb d (getKey b) r \<in> set (all_changes ds bm)"
  by (auto simp: all_changes_def changes_of_decorator_def changes_in_block_def)

text \<open>
  C6. Take two rules that report, on the same block, ranges whose clamped ranges share
  the character at offset \<open>i\<close>. After the pass that character carries every style of
  both rules: its style set is the one it had, joined with the styles of every collected
  change whose clamped range covers it.
\<close>

theorem overlapping_rules_union:
  assumes wf: "wf_content (getCurrentContent (g ()))"
    and nt: "never_throws ds (getBlockMap (getCurrentContent (g ())))"
    and d1: "d1 \<in> set ds" and d2: "d2 \<in> set ds"
    and b: "b \<in> set (getBlockMap (getCurrentContent (g ())))"
    and r1: "(s1, e1) \<in> set (reported (decorator_strategy d1 b))"
    and r2: "(s2, e2) \<in> set (reported (decorator_strategy d2 b))"
    and i1: "max s1 0 \<le> int i \<and> int i < min (int (length (getText b))) e1"
    and i2: "max s2 0 \<le> int i \<and> int i < min (int (length (getText b))) e2"
  shows "\<exists>st' b'. syncExecuteStrategies ds g = Inr (Some st') \<and>
           getBlockForKey (getCurrentContent st') (getKey b) = Some b' \<and>
           getText b' = getText b \<and>
           set (decorator_styles d1) \<union> set (decorator_styles d2)
             \<subseteq> set (getStyle (getCharacterList b' ! i)) \<and>
           set (getStyle (getCharacterList b' ! i))
             = set (getStyle (getCharacterList b ! i))
               \<union> \<Union> (set ` change_styles `
                   {ch \<in> set (all_changes ds (getBlockMap (getCurrentContent (g ())))).
                      covers ch b i})"
proof -
  let ?bm = "getBlockMap (getCurrentContent (g ()))"
  let ?chs = "all_changes ds ?bm"
  let ?b' = "block_after ?chs b"
  from pass_blocks [where g = g and ds = ds, OF wf nt] obtain st' where
    st': "syncExecuteStrategies ds g = Inr (Some st')"
      "getBlockMap (getCurrentContent st') = map (block_after ?chs) ?bm"
    by blast
  from wf have dist: "distinct (map getKey ?bm)" by (simp add: wf_content_def)
  from wf b have len: "length (getCharacterList b) = length (getText b)"
    by (auto simp: wf_content_def list_all_iff wf_block_def)
  with i1 have i: "i < length (getCharacterList b)" by auto
  have "find (\<lambda>x. getKey x = getKey b) ?bm = Some b"
  proof (cases "find (\<lambda>x. getKey x = getKey b) ?bm")
    case None
    with b show ?thesis by (force simp: find_None_key)
  next
    case (Some x)
    with dist b show ?thesis by (auto dest!: find_Some_key dest: distinct_key_unique)
  qed
  then have g': "getBlockForKey (getCurrentContent st') (getKey b) = Some ?b'"
    by (simp add: getBlockForKey_def st'(2) find_map_key)
  let ?c1 = "cb d1 (getKey b) (s1, e1)" and ?c2 = "cb d2 (getKey b) (s2, e2)"
  have c1: "?c1 \<in> set ?chs" "covers ?c1 b i" "change_styles ?c1 = decorator_styles d1"
    using cb_in_all_changes [OF d1 b r1] i1 by (simp_all add: covers_def cb_def)
  have c2: "?c2 \<in> set ?chs" "covers ?c2 b i" "change_styles ?c2 = decorator_styles d2"
    using cb_in_all_changes [OF d2 b r2] i2 by (simp_all add: covers_def cb_def)
  have eq: "set (getStyle (getCharacterList ?b' ! i))
             = set (getStyle (getCharacterList b ! i))
               \<union> \<Union> (set ` change_styles ` {ch \<in> set ?chs. covers ch b i})"
    using i by (rule style_block_after)
  let ?U = "\<Union> (set ` change_styles ` {ch \<in> set ?chs. covers ch b i})"
  from c1 have "?c1 \<in> {ch \<in> set ?chs. covers ch b i}" by simp
  then have "set (change_styles ?c1) \<in> set ` change_styles ` {ch \<in> set ?chs. covers ch b i}"
    by (intro imageI)
  then have "set (change_styles ?c1) \<subseteq> ?U" by (rule Union_upper)
  with c1(3) have u1: "set (decorator_styles d1) \<subseteq> ?U" by simp
  from c2 have "?c2 \<in> {ch \<in> set ?chs. covers ch b i}" by simp
  then have "set (change_styles ?c2) \<in> set ` change_styles ` {ch \<in> set ?chs. covers ch b i}"
    by (intro imageI)
  then have "set (change_styles ?c2) \<subseteq> ?U" by (rule Union_upper)
  with c2(3) have u2: "set (decorator_styles d2) \<subseteq> ?U" by simp
  from u1 u2 have "set (decorator_styles d1) \<union> set (decorator_styles d2) \<subseteq> ?U"
    by (rule Un_least)
  also have "?U \<subseteq> set (getStyle (getCharacterList ?b' ! i))"
    unfolding eq by (rule Un_upper2)
  finally have sub: "set (decorator_styles d1) \<union> set (decorator_styles d2)
             \<subseteq> set (getStyle (getCharacterList ?b' ! i))" .
  show ?thesis
  proof (intro exI conjI)
    show "syncExecuteStrategies ds g = Inr (Some st')" by (fact st'(1))
    show "getBlockForKey (getCurrentContent st') (getKey b) = Some ?b'" by (fact g')
    show "getText ?b' = getText b" by simp
    show "set (decorator_styles d1) \<union> set (decorator_styles d2)
             \<subseteq> set (getStyle (getCharacterList ?b' ! i))" by (fact sub)
    show "set (getStyle (getCharacterList ?b' ! i))
             = set (getStyle (getCharacterList b ! i)) \<union> ?U" by (fact eq)
  qed
qed

lemma overlap_never_throws:
  "never_throws overlap_decorators (getBlockMap (getCurrentContent (get_readme_state ())))"
  by code_simp

lemma readme_block_in_state: "readme_block \<in> set (getBlockMap (getCurrentContent (get_readme_state ())))"
  by (simp add: get_readme_state_def readme_state_def state_of_blocks_def readme_block_def)

lemma overlap_reports:
  "(0, 6) \<in> set (reported (decorator_strategy bold_rule readme_block))"
  "(3, 10) \<in> set (reported (decorator_strategy italic_rule readme_block))"
  by (simp_all add: bold_rule_def italic_rule_def reports_def)

lemma overlap_index:
  "max 0 0 \<le> int 4 \<and> int 4 < min (int (length (getText readme_block))) 6"
  "max 3 0 \<le> int 4 \<and> int 4 < min (int (length (getText readme_block))) 10"
  by (simp_all add: readme_block_def unstyled_block_def)

theorem overlapping_rules_union_witness:
  "wf_content (getCurrentContent (get_readme_state ())) \<and>
   never_throws overlap_decorators (getBlockMap (getCurrentContent (get_readme_state ()))) \<and>
   bold_rule \<in> set overlap_decorators \<and> italic_rule \<in> set overlap_decorators \<and>
   readme_block \<in> set (getBlockMap (getCurrentContent (get_readme_state ()))) \<and>
   (0, 6) \<in> set (reported (decorator_strategy bold_rule readme_block)) \<and>
   (3, 10) \<in> set (reported (decorator_strategy italic_rule readme_block)) \<and>
   (max 0 0 \<le> int 4 \<and> int 4 < min (int (length (getText readme_block))) 6) \<and>
   (max 3 0 \<le> int 4 \<and> int 4 < min (int (length (getText readme_block))) 10) \<and>
   (\<exists>st' b'. syncExecuteStrategies overlap_decorators get_readme_state = Inr (Some st') \<and>
      getBlockForKey (getCurrentContent st') (getKey readme_block) = Some b' \<and>
      getText b' = getText readme_block \<and>
      set (decorator_styles bold_rule) \<union> set (decorator_styles italic_rule)
        \<subseteq> set (getStyle (getCharacterList b' ! 4)) \<and>
      set (getStyle (getCharacterList b' ! 4))
        = set (getStyle (getCharacterList readme_block ! 4))
          \<union> \<Union> (set ` change_styles `
              {ch \<in> set (all_changes overlap_decorators
                            (getBlockMap (getCurrentContent (get_readme_state ())))).
                 covers ch readme_block 4}))"
proof -
  have d1: "bold_rule \<in> set overlap_decorators" and d2: "italic_rule \<in> set overlap_decorators"
    by (simp_all add: overlap_decorators_def)
  note h = readme_state_wf overlap_never_throws d1 d2 readme_block_in_state overlap_reports
    overlap_index
  from overlapping_rules_union [where g = get_readme_state and ds = overlap_decorators, OF h]
  show ?thesis using h by blast
qed

subsection \<open>The counter\<close>

lemma needToChange_differs:
  assumes wf: "wf_block b" and k: "getKey b = change_blockKey ch" and e: "0 \<le> change_end ch"
  shows "needToChange b (limitSelection (createSelectionForChange ch) b) (change_styles ch)
     \<longleftrightarrow> differs_in_range ch b"
proof -
  let ?a = "max (change_start ch) 0" and ?f = "min (int (length (getText b))) (change_end ch)"
  from wf have len: "length (getCharacterList b) = length (getText b)" by (simp add: wf_block_def)
  from e have f0: "0 \<le> ?f" by simp
  from len have fl: "?f \<le> int (length (getCharacterList b))" by simp
  have "needToChange b (limitSelection (createSelectionForChange ch) b) (change_styles ch)
     \<longleftrightarrow> \<not> (\<forall>i. ?a \<le> int i \<and> int i < ?f \<longrightarrow> getStyle (getCharacterList b ! i) = change_styles ch)"
    using uniform_slice_iff [OF _ f0 fl, of ?a "change_styles ch"]
    by (simp add: needToChange_def)
  also have "\<dots> \<longleftrightarrow> differs_in_range ch b"
    using k len by (auto simp: differs_in_range_def covers_def list_ex_iff)
  finally show ?thesis .
qed

lemma change_needed_differs:
  assumes d: "distinct (map getKey bm)" and wf: "list_all wf_block bm"
    and e: "0 \<le> change_end ch"
  shows "change_needed ch bm \<longleftrightarrow> (\<exists>b \<in> set bm. differs_in_range ch b)"
proof (cases "find (\<lambda>block. getKey block = change_blockKey ch) bm")
  case None
  then have "\<forall>b \<in> set bm. getKey b \<noteq> change_blockKey ch" by (force simp: find_None_key)
  then have "\<forall>b \<in> set bm. \<not> differs_in_range ch b"
    by (auto simp: differs_in_range_def covers_def list_ex_iff)
  with None show ?thesis by (simp add: change_needed_def)
next
  case (Some b)
  then have b: "b \<in> set bm" "getKey b = change_blockKey ch" by (auto dest: find_Some_key)
  with wf have wb: "wf_block b" by (simp add: list_all_iff)
  have other: "\<not> differs_in_range ch x" if "x \<in> set bm" "x \<noteq> b" for x
  proof -
    from d b that have "getKey x \<noteq> change_blockKey ch" by (auto dest: distinct_key_unique)
    then show ?thesis by (auto simp: differs_in_range_def covers_def list_ex_iff)
  qed
  have "change_needed ch bm \<longleftrightarrow> differs_in_range ch b"
    using Some needToChange_differs [OF wb b(2) e] by (simp add: change_needed_def)
  also have "\<dots> \<longleftrightarrow> (\<exists>x \<in> set bm. differs_in_range ch x)"
    using b(1) other by blast
  finally show ?thesis .
qed

lemma count_changes_spec:
  "distinct (map getKey bm) \<Longrightarrow> list_all wf_block bm \<Longrightarrow> nonnegative_ends chs \<Longrightarrow>
   count_changes chs bm = count_spec chs bm"
proof (induction chs arbitrary: bm)
  case Nil
  then show ?case by simp
next
  case (Cons ch chs)
  from Cons.prems have e: "0 \<le> change_end ch" and es: "nonnegative_ends chs"
    by (simp_all add: nonnegative_ends_def)
  have d1: "distinct (map getKey (map (apply_change ch) bm))"
    using Cons.prems(1) by (simp add: o_def)
  have w1: "list_all wf_block (map (apply_change ch) bm)"
    using Cons.prems(2) by (simp add: list_all_iff)
  from Cons.IH [OF d1 w1 es] change_needed_differs [OF Cons.prems(1,2) e]
  show ?case by simp
qed

text \<open>
  C7, amended. In a pass in which no change has a negative reported end, the counter
  goes up once for each style of a change when some character of the clamped selection, in the
  document as it stands before the change is applied, does not carry exactly the
  change's whole list of styles, in order, and not at all otherwise: the comparison is
  against the whole list and is the same for every style of the change. The counter the
  reconciler returns is the total over all changes.
\<close>

theorem counter_compares_whole_style_list:
  assumes "wf_content c" and "keys_present changes (getBlockMap c)"
    and "nonnegative_ends changes"
  shows "\<exists>c'. applyChanges_reduce changes (c, 0) = Inr (c', count_spec changes (getBlockMap c))"
proof -
  from assms(1) have "distinct (map getKey (getBlockMap c))" "list_all wf_block (getBlockMap c)"
    by (simp_all add: wf_content_def)
  from count_changes_spec [OF this assms(3)] applyChanges_reduce_ok [OF assms(1,2), of 0]
  show ?thesis by auto
qed

text \<open>
  C7, as the specification states it, fails. A change with the styles BOLD and ITALIC on
  characters that carry exactly BOLD and ITALIC: for each of the two styles some
  character (every character) does not carry that one style as its sole style, so the
  counter should go up twice; it stays at 0.
\<close>

theorem counter_per_style_counterexample:
  "lacks_sole_style both_change both_block ''BOLD'' \<and>
   lacks_sole_style both_change both_block ''ITALIC'' \<and>
   map_sum id snd (applyChanges_reduce [both_change] (both_content, 0)) = Inr 0"
  by code_simp

lemma both_wf: "wf_content both_content" by code_simp
lemma both_keys: "keys_present [both_change, wide_change] (getBlockMap both_content)" by code_simp
lemma both_ends: "nonnegative_ends [both_change, wide_change]" by code_simp
lemma both_count: "count_spec [both_change, wide_change] (getBlockMap both_content) = 1" by code_simp

theorem counter_compares_whole_style_list_witness:
  "wf_content both_content \<and> keys_present [both_change, wide_change] (getBlockMap both_content) \<and>
   nonnegative_ends [both_change, wide_change] \<and>
   count_spec [both_change, wide_change] (getBlockMap both_content) = 1 \<and>
   (\<exists>c'. applyChanges_reduce [both_change, wide_change] (both_content, 0)
      = Inr (c', count_spec [both_change, wide_change] (getBlockMap both_content)))"
  using counter_compares_whole_style_list [OF both_wf both_keys both_ends]
    both_wf both_keys both_ends both_count
  by blast

subsection \<open>Idempotence\<close>

lemma covers_block_after [simp]: "covers ch (block_after cs b) i = covers ch b i"
  by (simp add: covers_def)

lemma wf_block_block_after [simp]: "wf_block (block_after cs b) = wf_block b"
  by (simp add: wf_block_def)

lemma style_after_agreeing:
  assumes "i < length (getCharacterList b)"
    and "\<forall>ch \<in> set cs. covers ch b i \<longrightarrow> change_styles ch = L"
    and "distinct L"
    and "getStyle (getCharacterList b ! i) = [] \<or> getStyle (getCharacterList b ! i) = L"
  shows "getStyle (getCharacterList (block_after cs b) ! i)
     = (if \<exists>ch \<in> set cs. covers ch b i then L else getStyle (getCharacterList b ! i))"
  using assms
proof (induction cs arbitrary: b)
  case Nil
  then show ?case by simp
next
  case (Cons ch cs)
  let ?b1 = "apply_change ch b"
  let ?S = "getStyle (getCharacterList b ! i)"
  have s1: "getStyle (getCharacterList ?b1 ! i) = (if covers ch b i then L else ?S)"
  proof (cases "covers ch b i")
    case True
    with Cons.prems(2) have "change_styles ch = L" by simp
    moreover from Cons.prems(3,4) have "add_styles ?S L = L"
      by (auto simp: add_styles_distinct add_styles_present)
    ultimately show ?thesis using True Cons.prems(1) by (simp add: getStyle_apply_change)
  next
    case False
    then show ?thesis using Cons.prems(1) by (simp add: getStyle_apply_change)
  qed
  have p1: "i < length (getCharacterList ?b1)" using Cons.prems(1) by simp
  have p2: "\<forall>ch \<in> set cs. covers ch ?b1 i \<longrightarrow> change_styles ch = L"
    using Cons.prems(2) by simp
  have p4: "getStyle (getCharacterList ?b1 ! i) = [] \<or> getStyle (getCharacterList ?b1 ! i) = L"
    using s1 Cons.prems(4) by auto
  from Cons.IH [OF p1 p2 Cons.prems(3) p4] s1 show ?case by auto
qed

lemma agree_on_overlapD:
  "agree_on_overlap chs bm \<Longrightarrow> c1 \<in> set chs \<Longrightarrow> c2 \<in> set chs \<Longrightarrow> b \<in> set bm \<Longrightarrow>
   i < length (getCharacterList b) \<Longrightarrow> covers c1 b i \<Longrightarrow> covers c2 b i \<Longrightarrow>
   change_styles c1 = change_styles c2"
proof -
  assume a: "agree_on_overlap chs bm" and m: "c1 \<in> set chs" "c2 \<in> set chs" "b \<in> set bm"
    and i: "i < length (getCharacterList b)" and c: "covers c1 b i" "covers c2 b i"
  from i have "i \<in> set [0..<length (getCharacterList b)]" by simp
  with a m c show ?thesis unfolding agree_on_overlap_def list_all_iff by blast
qed

lemma unstyled_or_settledD:
  "unstyled_or_settled chs bm \<Longrightarrow> c \<in> set chs \<Longrightarrow> b \<in> set bm \<Longrightarrow>
   i < length (getCharacterList b) \<Longrightarrow> covers c b i \<Longrightarrow>
   getStyle (getCharacterList b ! i) = [] \<or> getStyle (getCharacterList b ! i) = change_styles c"
proof -
  assume a: "unstyled_or_settled chs bm" and m: "c \<in> set chs" "b \<in> set bm"
    and i: "i < length (getCharacterList b)" and c: "covers c b i"
  from i have "i \<in> set [0..<length (getCharacterList b)]" by simp
  with a m c show ?thesis unfolding unstyled_or_settled_def list_all_iff by blast
qed

lemma settled_after_pass:
  assumes ds: "distinct_styles chs" and ag: "agree_on_overlap chs bm"
    and un: "unstyled_or_settled chs bm"
    and ch: "ch \<in> set chs" and b: "b \<in> set bm"
  shows "\<not> differs_in_range ch (block_after chs b)"
proof -
  have "getStyle (getCharacterList (block_after chs b) ! i) = change_styles ch"
    if i: "i < length (getCharacterList b)" and c: "covers ch b i" for i
  proof -
    have a2: "\<forall>ch' \<in> set chs. covers ch' b i \<longrightarrow> change_styles ch' = change_styles ch"
      using agree_on_overlapD [OF ag _ ch b i _ c] by blast
    have a3: "distinct (change_styles ch)"
      using ds ch by (simp add: distinct_styles_def list_all_iff)
    have a4: "getStyle (getCharacterList b ! i) = [] \<or>
        getStyle (getCharacterList b ! i) = change_styles ch"
      using unstyled_or_settledD [OF un ch b i c] .
    from style_after_agreeing [OF i a2 a3 a4] ch c show ?thesis by auto
  qed
  then show ?thesis by (auto simp: differs_in_range_def list_ex_iff)
qed

lemma count_spec_settled:
  assumes "distinct (map getKey bm)" and "list_all wf_block bm" and "nonnegative_ends cs"
    and "\<forall>ch \<in> set cs. \<forall>b \<in> set bm. \<not> differs_in_range ch b"
  shows "count_spec cs bm = 0"
  using assms
proof (induction cs)
  case Nil
  then show ?case by simp
next
  case (Cons ch cs)
  from Cons.prems(3) have e: "0 \<le> change_end ch" and es: "nonnegative_ends cs"
    by (simp_all add: nonnegative_ends_def)
  from Cons.prems(4) have nd: "\<not> (\<exists>b \<in> set bm. differs_in_range ch b)" by simp
  with change_needed_differs [OF Cons.prems(1,2) e] have "\<not> change_needed ch bm" by simp
  from map_apply_change_noop [OF Cons.prems(1,2) this]
  have same: "map (apply_change ch) bm = bm" .
  from Cons.IH [OF Cons.prems(1,2) es] Cons.prems(4) have "count_spec cs bm = 0" by simp
  with nd same show ?case by simp
qed

lemma all_changes_text_only:
  assumes "text_only ds"
  shows "all_changes ds (map (block_after cs) bm) = all_changes ds bm"
proof -
  have "changes_in_block d (block_after cs b) = changes_in_block d b" if "d \<in> set ds" for d b
  proof -
    from assms that have "decorator_strategy d (block_after cs b) = decorator_strategy d b"
      unfolding text_only_def by (metis getKey_block_after getText_block_after)
    then show ?thesis by (simp add: changes_in_block_def)
  qed
  then show ?thesis
    by (simp add: all_changes_def changes_of_decorator_def o_def cong: map_cong)
qed

lemma never_throws_text_only:
  assumes "text_only ds" and "never_throws ds bm"
  shows "never_throws ds (map (block_after cs) bm)"
proof -
  have "throws_on d (block_after cs b) = throws_on d b" if "d \<in> set ds" for d b
  proof -
    from assms(1) that have "decorator_strategy d (block_after cs b) = decorator_strategy d b"
      unfolding text_only_def by (metis getKey_block_after getText_block_after)
    then show ?thesis by (simp add: throws_on_def)
  qed
  with assms(2) show ?thesis by (auto simp: never_throws_def)
qed

text \<open>
  C1, as the specification states it, fails. Two rules with overlapping ranges and
  different styles (BOLD on \<open>[0, 6)\<close>, ITALIC on \<open>[3, 10)\<close>): the characters both
  ranges cover end with both styles, which is neither rule's own list, so the second
  pass counts both rules again.
\<close>

theorem reconciliation_idempotent_counterexample:
  "syncExecuteStrategies overlap_decorators get_readme_state = Inr (Some overlap_styled_state) \<and>
   changesApplied_of overlap_decorators overlap_styled_state = Inr 2"
  by code_simp

text \<open>
  C1, amended. Let the matchers look at a block's key and text only and never throw, let
  no reported end be negative and no rule list a style twice, let every two reported
  ranges that share a character carry the same style list, and let every character
  inside a reported range carry no style or exactly the style list of the rule. Then
  the pass succeeds, and a second pass on the state it returns applies no change.
\<close>

theorem second_pass_applies_nothing:
  assumes wf: "wf_content (getCurrentContent st)"
    and nt: "never_throws ds (getBlockMap (getCurrentContent st))"
    and to: "text_only ds"
    and ne: "nonnegative_ends (all_changes ds (getBlockMap (getCurrentContent st)))"
    and dst: "distinct_styles (all_changes ds (getBlockMap (getCurrentContent st)))"
    and ag: "agree_on_overlap (all_changes ds (getBlockMap (getCurrentContent st)))
               (getBlockMap (getCurrentContent st))"
    and un: "unstyled_or_settled (all_changes ds (getBlockMap (getCurrentContent st)))
               (getBlockMap (getCurrentContent st))"
  shows "\<exists>st'. syncExecuteStrategies ds (\<lambda>_. st) = Inr (Some st') \<and>
               changesApplied_of ds st' = Inr 0"
proof -
  let ?bm = "getBlockMap (getCurrentContent st)"
  let ?chs = "all_changes ds ?bm"
  let ?bm' = "map (block_after ?chs) ?bm"
  from pass_blocks [where g = "\<lambda>_. st" and ds = ds] wf nt obtain st' where
    st': "syncExecuteStrategies ds (\<lambda>_. st) = Inr (Some st')"
      "getBlockMap (getCurrentContent st') = ?bm'"
    by auto
  from wf have d: "distinct (map getKey ?bm')" and w: "list_all wf_block ?bm'"
    by (simp_all add: wf_content_def o_def list_all_iff)
  then have wf': "wf_content (getCurrentContent st')"
    by (simp add: wf_content_def st'(2))
  have chs': "all_changes ds ?bm' = ?chs" using to by (rule all_changes_text_only)
  have "never_throws ds ?bm'" using to nt by (rule never_throws_text_only)
  then have coll: "collect_changes ds st' [] = Inr ?chs"
    using never_throws_collect [of ds st'] by (simp add: st'(2) chs')
  have "keys_present (all_changes ds ?bm') ?bm'" by (rule keys_present_all_changes)
  then have kp: "keys_present ?chs (getBlockMap (getCurrentContent st'))"
    by (simp add: chs' st'(2))
  from applyChanges_reduce_ok [OF wf' kp, of 0] obtain c'' where
    red: "applyChanges_reduce ?chs (getCurrentContent st', 0) = Inr (c'', count_changes ?chs ?bm')"
    by (auto simp: st'(2))
  have settled: "\<forall>ch \<in> set ?chs. \<forall>b \<in> set ?bm'. \<not> differs_in_range ch b"
    using settled_after_pass [OF dst ag un] by auto
  have "count_changes ?chs ?bm' = count_spec ?chs ?bm'"
    using d w ne by (rule count_changes_spec)
  also have "\<dots> = 0" using d w ne settled by (rule count_spec_settled)
  finally have "count_changes ?chs ?bm' = 0" .
  with coll red have "changesApplied_of ds st' = Inr 0"
    by (simp add: changesApplied_of_def)
  with st'(1) show ?thesis by blast
qed

lemma readme_text_only: "text_only readme_decorators"
  by (simp add: text_only_def readme_decorators_def reports_def)

lemma readme_never_throws:
  "never_throws readme_decorators (getBlockMap (getCurrentContent readme_state))"
  by code_simp

lemma readme_state_content_wf: "wf_content (getCurrentContent readme_state)"
  by code_simp

lemma readme_changes_agree:
  "nonnegative_ends (all_changes readme_decorators (getBlockMap (getCurrentContent readme_state)))"
  "distinct_styles (all_changes readme_decorators (getBlockMap (getCurrentContent readme_state)))"
  "agree_on_overlap (all_changes readme_decorators (getBlockMap (getCurrentContent readme_state)))
     (getBlockMap (getCurrentContent readme_state))"
  "unstyled_or_settled (all_changes readme_decorators (getBlockMap (getCurrentContent readme_state)))
     (getBlockMap (getCurrentContent readme_state))"
  by code_simp+

theorem second_pass_applies_nothing_witness:
  "wf_content (getCurrentContent readme_state) \<and>
   never_throws readme_decorators (getBlockMap (getCurrentContent readme_state)) \<and>
   text_only readme_decorators \<and>
   nonnegative_ends (all_changes readme_decorators (getBlockMap (getCurrentContent readme_state))) \<and>
   distinct_styles (all_changes readme_decorators (getBlockMap (getCurrentContent readme_state))) \<and>
   agree_on_overlap (all_changes readme_decorators (getBlockMap (getCurrentContent readme_state)))
     (getBlockMap (getCurrentContent readme_state)) \<and>
   unstyled_or_settled (all_changes readme_decorators (getBlockMap (getCurrentContent readme_state)))
     (getBlockMap (getCurrentContent readme_state)) \<and>
   (\<exists>st'. syncExecuteStrategies readme_decorators (\<lambda>_. readme_state) = Inr (Some st') \<and>
          changesApplied_of readme_decorators st' = Inr 0)"
proof -
  note h = readme_state_content_wf readme_never_throws readme_text_only readme_changes_agree
  from second_pass_applies_nothing [OF h] show ?thesis using h by blast
qed

end
